theory Spec2Isabelle
  imports Main
begin

section \<open>Error values and the cause chain\<close>

text \<open>
  The stress client (\<^verbatim>\<open>test/stress-client.js\<close>) classifies errors by the \<^verbatim>\<open>name\<close>
  property of the errors on a cause chain. An error value carries its name, its message
  and an optional cause; JavaScript's \<^verbatim>\<open>null\<close>/\<^verbatim>\<open>undefined\<close> error argument of a
  callback is \<open>None\<close> of type \<open>jserror option\<close>.
\<close>

datatype jserror = JSError (errname: string) (message: string) (cause: "jserror option")

text \<open>
  What a \<^verbatim>\<open>throw\<close> carries: a failed assertion (tagged with its message, or with
  the asserted expression where the source gives no message) or an error.
\<close>

datatype thrown = AssertionError string | Thrown jserror

text \<open>\<^verbatim>\<open>new VError(msg)\<close>, \<^verbatim>\<open>new VError(cause, msg)\<close> and \<^verbatim>\<open>new Error(msg)\<close>.\<close>

definition VError_new :: "string \<Rightarrow> jserror" where
  "VError_new msg = JSError ''VError'' msg None"

definition VError_wrap :: "jserror \<Rightarrow> string \<Rightarrow> jserror" where
  "VError_wrap c msg = JSError ''VError'' (msg @ '': '' @ message c) (Some c)"

definition Error_new :: "string \<Rightarrow> jserror" where
  "Error_new msg = JSError ''Error'' msg None"

text \<open>A name put between double quotes, as \<^verbatim>\<open>"%s"\<close> formats it.\<close>

definition quoted :: "string \<Rightarrow> string" where
  "quoted x = [CHR 0x22] @ x @ [CHR 0x22]"

text \<open>The cause chain of an error: the error itself, its cause, the cause's cause, ...\<close>

fun causes :: "jserror \<Rightarrow> jserror list" where
  "causes (JSError n m c) =
     JSError n m c # (case c of None \<Rightarrow> [] | Some c' \<Rightarrow> causes c')"

text \<open>The cause chain of \<open>e\<close> contains an error whose name is one of \<open>errtypes\<close>.\<close>

definition hasCauseNamed :: "jserror \<Rightarrow> string list \<Rightarrow> bool" where
  "hasCauseNamed e errtypes = (\<exists>c \<in> set (causes e). errname c \<in> set errtypes)"

text \<open>
  \<^verbatim>\<open>VError.findCauseByName(err, name)\<close> belongs to the \<^verbatim>\<open>verror\<close> package the file
  requires. Its loop walks the cause chain and returns the first error whose name is the
  one asked for, or \<^verbatim>\<open>null\<close>:
  \<^verbatim>\<open>for (cause = err; cause !== null; cause = VError.cause(cause))
      if (cause.name == name) return (cause);
  return (null);\<close>
  Before the loop it asserts its arguments:
  \<^verbatim>\<open>mod_assertplus.ok(mod_isError(err), 'err must be an Error');
  mod_assertplus.string(name, 'name');
  mod_assertplus.ok(name.length > 0, 'name cannot be empty');\<close>
  A failed assertion throws. (Assertions are on unless the process runs with
  \<^verbatim>\<open>NODE_NDEBUG\<close> set; the model is the default.) The package is not part of this
  repository: \<open>findCause\<close> is the loop and \<open>findCauseByName\<close> the function with its
  assertions, on an argument that is an error or \<^verbatim>\<open>null\<close> and a name that is a string.
\<close>

fun findCause :: "jserror \<Rightarrow> string \<Rightarrow> jserror option" where
  "findCause (JSError n m c) nm =
     (if n = nm then Some (JSError n m c)
      else (case c of None \<Rightarrow> None | Some c' \<Rightarrow> findCause c' nm))"

definition findCauseByName :: "jserror option \<Rightarrow> string \<Rightarrow> thrown + jserror option" where
  "findCauseByName err nm =
     (case err of
        None \<Rightarrow> Inl (AssertionError ''err must be an Error'')
      | Some e \<Rightarrow>
          if nm = [] then Inl (AssertionError ''name cannot be empty'')
          else Inr (findCause e nm))"

section \<open>ignoreErrorTypes and cbIgnoreErrorTypes\<close>

text \<open>
  \<^verbatim>\<open>function ignoreErrorTypes(err, errtypes) {
      if (!err) return (err);
      for (i = 0; i < errtypes.length; i++)
          if (VError.findCauseByName(err, errtypes[i]) !== null) return (null);
      return (err);
  }\<close>
  The loop is the recursion on the list of names; an assertion failing inside
  \<^verbatim>\<open>findCauseByName\<close> leaves the function by the throw.
\<close>

fun ignoreErrorTypes_loop :: "jserror \<Rightarrow> string list \<Rightarrow> thrown + jserror option" where
  "ignoreErrorTypes_loop e [] = Inr (Some e)"
| "ignoreErrorTypes_loop e (t # ts) =
     (case findCauseByName (Some e) t of
        Inl a \<Rightarrow> Inl a
      | Inr (Some found) \<Rightarrow> Inr None
      | Inr None \<Rightarrow> ignoreErrorTypes_loop e ts)"

definition ignoreErrorTypes :: "jserror option \<Rightarrow> string list \<Rightarrow> thrown + jserror option" where
  "ignoreErrorTypes err errtypes =
     (case err of None \<Rightarrow> Inr None | Some e \<Rightarrow> ignoreErrorTypes_loop e errtypes)"

text \<open>
  \<^verbatim>\<open>cbIgnoreErrorTypes(callback, errtypes)\<close> returns a function of the error and the
  remaining arguments; it calls \<^verbatim>\<open>callback\<close> with the filtered error put in front of the
  remaining arguments. The result is what the callback returns, or the throw of
  \<^verbatim>\<open>ignoreErrorTypes\<close>.
\<close>

definition cbIgnoreErrorTypes ::
  "(jserror option \<Rightarrow> 'a list \<Rightarrow> 'r) \<Rightarrow> string list \<Rightarrow> jserror option \<Rightarrow> 'a list \<Rightarrow> thrown + 'r" where
  "cbIgnoreErrorTypes callback errtypes err args =
     (case ignoreErrorTypes err errtypes of
        Inl a \<Rightarrow> Inl a
      | Inr err' \<Rightarrow> Inr (callback err' args))"

section \<open>Requests, responses and outcomes\<close>

text \<open>
  Arguments of the RPC calls and the bodies of the introspection replies are JavaScript
  values: \<^verbatim>\<open>null\<close>, numbers, strings, dates (\<^verbatim>\<open>new Date()\<close>, as milliseconds of the
  clock), objects (key/value pairs in order) and arrays.
\<close>

datatype json =
    JNull
  | JNum nat
  | JStr string
  | JDate nat
  | JObj "(string \<times> json) list"
  | JArr "json list"

text \<open>
  A call on the Moray client: the method's name and its arguments (without the callback).
  The client and the server are external; what they answer is the environment's choice:
  success, an error, or no answer at all. For a callback-style call the callback's first
  argument is the error (\<^verbatim>\<open>null\<close> on success); for a request object
  (\<^verbatim>\<open>findObjects\<close>, \<^verbatim>\<open>sql\<close>) success is the \<^verbatim>\<open>'end'\<close> event and failure the
  \<^verbatim>\<open>'error'\<close> event.
\<close>

datatype rpc = Rpc (rpc_method: string) (rpc_args: "json list")

datatype response = RespOk | RespError jserror | RespNever

text \<open>
  How an asynchronous routine (an exec routine, a pipeline stage) ends: it calls its
  callback with an error or \<^verbatim>\<open>null\<close>, it throws (nothing catches it: the process dies),
  or it never calls back.
\<close>

datatype outcome = Callback "jserror option" | Throws thrown | Hangs

definition returned :: "thrown + outcome \<Rightarrow> outcome" where
  "returned r = (case r of Inl t \<Rightarrow> Throws t | Inr out \<Rightarrow> out)"

text \<open>A stage's \<^verbatim>\<open>subcallback\<close>: its first argument is the stage's error.\<close>

definition subcallback :: "jserror option \<Rightarrow> json list \<Rightarrow> outcome" where
  "subcallback err args = Callback err"

text \<open>
  \<open>rpc_cb client req k\<close>: issue \<open>req\<close> with callback \<open>k\<close>; \<open>rpc_req client req on_error
  on_end\<close>: issue \<open>req\<close> and listen for \<^verbatim>\<open>'error'\<close> and \<^verbatim>\<open>'end'\<close>. Both give the
  requests issued and the outcome.
\<close>

definition rpc_cb ::
  "(rpc \<Rightarrow> response) \<Rightarrow> rpc \<Rightarrow> (jserror option \<Rightarrow> outcome) \<Rightarrow> rpc list \<times> outcome" where
  "rpc_cb client req k =
     ([req], case client req of
               RespNever \<Rightarrow> Hangs
             | RespOk \<Rightarrow> k None
             | RespError e \<Rightarrow> k (Some e))"

definition rpc_req ::
  "(rpc \<Rightarrow> response) \<Rightarrow> rpc \<Rightarrow> (jserror \<Rightarrow> outcome) \<Rightarrow> outcome \<Rightarrow> rpc list \<times> outcome" where
  "rpc_req client req on_error on_end =
     ([req], case client req of
               RespNever \<Rightarrow> Hangs
             | RespOk \<Rightarrow> on_end
             | RespError e \<Rightarrow> on_error e)"

text \<open>
  \<^verbatim>\<open>vasync.pipeline({ funcs: [...] }, callback)\<close> runs the stages in order; the first
  stage that reports an error ends the pipeline with that error, and after the last stage
  the callback gets no error. A stage that throws or never calls back ends it there.
\<close>

fun pipeline :: "('env \<Rightarrow> rpc list \<times> outcome) list \<Rightarrow> 'env \<Rightarrow> rpc list \<times> outcome" where
  "pipeline [] env = ([], Callback None)"
| "pipeline (f # fs) env =
     (case f env of
        (reqs, Callback None) \<Rightarrow>
          (case pipeline fs env of (reqs', out) \<Rightarrow> (reqs @ reqs', out))
      | (reqs, out) \<Rightarrow> (reqs, out))"

text \<open>\<^verbatim>\<open>/suffix$/.test(msg)\<close>: the message ends with the suffix.\<close>

definition endsWith :: "string \<Rightarrow> string \<Rightarrow> bool" where
  "endsWith msg suf = (drop (length msg - length suf) msg = suf)"

definition scTestBucketBogus :: string where
  "scTestBucketBogus = ''stress_client_bogus_bucket''"

definition scTestBucketInvalid :: string where
  "scTestBucketInvalid = ''buckets can't have spaces!''"

section \<open>Scenario: RPC requests before ever connected\<close>

text \<open>
  \<^verbatim>\<open>ctx.client.listBuckets(function (err) {
      if (VError.findCauseByName(err, 'NoBackendsError') !== null) err = null;
      callback(err);
  });\<close>
\<close>

definition cmdRpcNeverConnected :: "(rpc \<Rightarrow> response) \<Rightarrow> rpc list \<times> outcome" where
  "cmdRpcNeverConnected client =
     rpc_cb client (Rpc ''listBuckets'' [])
       (\<lambda>err. case findCauseByName err ''NoBackendsError'' of
                 Inl t \<Rightarrow> Throws t
               | Inr (Some found) \<Rightarrow> Callback None
               | Inr None \<Rightarrow> Callback err)"

section \<open>Scenario: disconnect/reconnect repeatedly\<close>

text \<open>
  What the exec routine's environment decides: whether \<^verbatim>\<open>helper.createServer\<close> and
  \<^verbatim>\<open>helper.cleanupServer\<close> call back (both call back without an error, throw, or stay
  silent), the answers to the pings of the polling loop in order (a ping with no answer
  left never completes), and the answer to the final ping.
\<close>

datatype helper_result = CalledBack | HelperThrew jserror | NeverCalledBack

record reconnect_env =
  createServer :: helper_result
  pings :: "response list"
  cleanupServer :: helper_result
  final_ping :: response

definition helper_outcome :: "helper_result \<Rightarrow> outcome" where
  "helper_outcome r =
     (case r of
        CalledBack \<Rightarrow> Callback None
      | HelperThrew e \<Rightarrow> Throws (Thrown e)
      | NeverCalledBack \<Rightarrow> Hangs)"

definition cmdRpcReconnectSetupServer :: "reconnect_env \<Rightarrow> rpc list \<times> outcome" where
  "cmdRpcReconnectSetupServer env = ([], helper_outcome (createServer env))"

text \<open>
  The polling loop: each answer increments \<^verbatim>\<open>ctx.nloops\<close>; an error with
  \<^verbatim>\<open>nloops <= maxloops\<close> pings again (after 100 ms), a later error is wrapped and
  reported, a success ends the stage.
\<close>

fun cmdRpcReconnectClientLoop_from ::
  "nat \<Rightarrow> nat \<Rightarrow> response list \<Rightarrow> rpc list \<times> outcome" where
  "cmdRpcReconnectClientLoop_from nloops maxloops [] = ([Rpc ''ping'' []], Hangs)"
| "cmdRpcReconnectClientLoop_from nloops maxloops (r # rs) =
     (case r of
        RespNever \<Rightarrow> ([Rpc ''ping'' []], Hangs)
      | RespOk \<Rightarrow> ([Rpc ''ping'' []], Callback None)
      | RespError e \<Rightarrow>
          if nloops + 1 \<le> maxloops then
            (case cmdRpcReconnectClientLoop_from (nloops + 1) maxloops rs of
               (reqs, out) \<Rightarrow> (Rpc ''ping'' [] # reqs, out))
          else ([Rpc ''ping'' []],
                Callback (Some (VError_wrap e ''too many transient errors''))))"

definition cmdRpcReconnectClientLoop :: "reconnect_env \<Rightarrow> rpc list \<times> outcome" where
  "cmdRpcReconnectClientLoop env = cmdRpcReconnectClientLoop_from 0 100 (pings env)"

definition cmdRpcReconnectShutdown :: "reconnect_env \<Rightarrow> rpc list \<times> outcome" where
  "cmdRpcReconnectShutdown env = ([], helper_outcome (cleanupServer env))"

text \<open>
  The final request's callback:
  \<^verbatim>\<open>if (err) {
      if (VError.findCauseByName(err, 'NoBackendsError') !== null ||
          VError.findCauseByName(err, 'FastTransportError') !== null ||
          VError.findCauseByName(err, 'FastProtocolError') !== null) err = null;
      else err = new VError(err, 'unexpected error');
  } else err = new VError('unexpected success');
  subcallback(err);\<close>
\<close>

definition cmdRpcReconnectClientFail_cb :: "jserror option \<Rightarrow> outcome" where
  "cmdRpcReconnectClientFail_cb err =
     (case err of
        Some e \<Rightarrow>
          (case findCauseByName (Some e) ''NoBackendsError'' of
             Inl t \<Rightarrow> Throws t
           | Inr (Some found) \<Rightarrow> subcallback None []
           | Inr None \<Rightarrow>
          (case findCauseByName (Some e) ''FastTransportError'' of
             Inl t \<Rightarrow> Throws t
           | Inr (Some found) \<Rightarrow> subcallback None []
           | Inr None \<Rightarrow>
          (case findCauseByName (Some e) ''FastProtocolError'' of
             Inl t \<Rightarrow> Throws t
           | Inr (Some found) \<Rightarrow> subcallback None []
           | Inr None \<Rightarrow> subcallback (Some (VError_wrap e ''unexpected error'')) [])))
      | None \<Rightarrow> subcallback (Some (VError_new ''unexpected success'')) [])"

definition cmdRpcReconnectClientFail :: "reconnect_env \<Rightarrow> rpc list \<times> outcome" where
  "cmdRpcReconnectClientFail env =
     rpc_cb (\<lambda>req. final_ping env) (Rpc ''ping'' [JObj [(''timeout'', JNum 5000)]])
       cmdRpcReconnectClientFail_cb"

definition cmdRpcReconnect :: "reconnect_env \<Rightarrow> rpc list \<times> outcome" where
  "cmdRpcReconnect env =
     pipeline [cmdRpcReconnectSetupServer, cmdRpcReconnectClientLoop,
               cmdRpcReconnectShutdown, cmdRpcReconnectClientFail] env"

section \<open>Scenario: failed RPC requests\<close>

text \<open>
  One stage per RPC call, in the order of \<^verbatim>\<open>funcs\<close>. Twelve stages filter the
  answer's error through \<^verbatim>\<open>ignoreErrorTypes\<close> with a one-name whitelist (eleven by
  \<^verbatim>\<open>cbIgnoreErrorTypes(subcallback, [...])\<close>, \<^verbatim>\<open>findObjects\<close> in its \<^verbatim>\<open>'error'\<close>
  listener); \<^verbatim>\<open>getTokens\<close> and \<^verbatim>\<open>sql\<close> assert on the error's message.
\<close>

text \<open>
  \<open>ignoring errtypes\<close> is the callback \<^verbatim>\<open>cbIgnoreErrorTypes(subcallback, errtypes)\<close>
  applied to the error of the answer; a throw inside it is the outcome of the stage.
\<close>

definition ignoring :: "string list \<Rightarrow> jserror option \<Rightarrow> outcome" where
  "ignoring errtypes err = returned (cbIgnoreErrorTypes subcallback errtypes err [])"

definition cmdRpcFailCreateBucket :: "(rpc \<Rightarrow> response) \<Rightarrow> rpc list \<times> outcome" where
  "cmdRpcFailCreateBucket client =
     rpc_cb client (Rpc ''createBucket'' [JStr scTestBucketInvalid, JObj []])
       (ignoring [''InvalidBucketNameError''])"

definition cmdRpcFailGetBucket :: "(rpc \<Rightarrow> response) \<Rightarrow> rpc list \<times> outcome" where
  "cmdRpcFailGetBucket client =
     rpc_cb client (Rpc ''getBucket'' [JStr scTestBucketBogus])
       (ignoring [''BucketNotFoundError''])"

definition cmdRpcFailUpdateBucket :: "(rpc \<Rightarrow> response) \<Rightarrow> rpc list \<times> outcome" where
  "cmdRpcFailUpdateBucket client =
     rpc_cb client (Rpc ''updateBucket'' [JStr scTestBucketBogus, JObj []])
       (ignoring [''BucketNotFoundError''])"

definition cmdRpcFailDeleteBucket :: "(rpc \<Rightarrow> response) \<Rightarrow> rpc list \<times> outcome" where
  "cmdRpcFailDeleteBucket client =
     rpc_cb client (Rpc ''deleteBucket'' [JStr scTestBucketBogus])
       (ignoring [''BucketNotFoundError''])"

definition cmdRpcFailPutObject :: "(rpc \<Rightarrow> response) \<Rightarrow> rpc list \<times> outcome" where
  "cmdRpcFailPutObject client =
     rpc_cb client (Rpc ''putObject'' [JStr scTestBucketBogus, JStr ''key'', JObj []])
       (ignoring [''BucketNotFoundError''])"

definition cmdRpcFailBatch :: "(rpc \<Rightarrow> response) \<Rightarrow> rpc list \<times> outcome" where
  "cmdRpcFailBatch client =
     rpc_cb client
       (Rpc ''batch'' [JArr [JObj [(''bucket'', JStr scTestBucketBogus),
                                   (''operation'', JStr ''update''),
                                   (''fields'', JObj []),
                                   (''filter'', JStr ''x=*'')]]])
       (ignoring [''BucketNotFoundError''])"

definition cmdRpcFailGetObject :: "(rpc \<Rightarrow> response) \<Rightarrow> rpc list \<times> outcome" where
  "cmdRpcFailGetObject client =
     rpc_cb client (Rpc ''getObject'' [JStr scTestBucketBogus, JStr ''key''])
       (ignoring [''BucketNotFoundError''])"

definition cmdRpcFailDelObject :: "(rpc \<Rightarrow> response) \<Rightarrow> rpc list \<times> outcome" where
  "cmdRpcFailDelObject client =
     rpc_cb client (Rpc ''delObject'' [JStr scTestBucketBogus, JStr ''key''])
       (ignoring [''BucketNotFoundError''])"

text \<open>\<^verbatim>\<open>throw (new Error('unexpected "end"'))\<close> in an \<^verbatim>\<open>'end'\<close> listener.\<close>

definition unexpected_end :: outcome where
  "unexpected_end = Throws (Thrown (Error_new (''unexpected '' @ quoted ''end'')))"

text \<open>
  \<^verbatim>\<open>req.on('error', function (err) {
      err = ignoreErrorTypes(err, [ 'BucketNotFoundError' ]); subcallback(err); });
  req.on('end', function () { throw (new Error('unexpected "end"')); });\<close>
\<close>

definition cmdRpcFailFindObjects :: "(rpc \<Rightarrow> response) \<Rightarrow> rpc list \<times> outcome" where
  "cmdRpcFailFindObjects client =
     rpc_req client (Rpc ''findObjects'' [JStr scTestBucketBogus, JStr ''key=value''])
       (\<lambda>err. case ignoreErrorTypes (Some err) [''BucketNotFoundError''] of
                 Inl t \<Rightarrow> Throws t
               | Inr err' \<Rightarrow> subcallback err' [])
       unexpected_end"

definition cmdRpcFailUpdateObjects :: "(rpc \<Rightarrow> response) \<Rightarrow> rpc list \<times> outcome" where
  "cmdRpcFailUpdateObjects client =
     rpc_cb client
       (Rpc ''updateObjects'' [JStr scTestBucketBogus, JObj [], JStr ''key=value''])
       (ignoring [''FieldUpdateError''])"

definition cmdRpcFailReindexObjects :: "(rpc \<Rightarrow> response) \<Rightarrow> rpc list \<times> outcome" where
  "cmdRpcFailReindexObjects client =
     rpc_cb client (Rpc ''reindexObjects'' [JStr scTestBucketBogus, JNum 3])
       (ignoring [''BucketNotFoundError''])"

definition cmdRpcFailDeleteMany :: "(rpc \<Rightarrow> response) \<Rightarrow> rpc list \<times> outcome" where
  "cmdRpcFailDeleteMany client =
     rpc_cb client (Rpc ''deleteMany'' [JStr scTestBucketBogus, JStr ''x=y''])
       (ignoring [''BucketNotFoundError''])"

text \<open>
  \<^verbatim>\<open>ctx.client.getTokens(function (err) {
      assertplus.ok(err);
      assertplus.ok(/Operation not supported$/.test(err.message));
      subcallback(); });\<close>
\<close>

definition cmdRpcFailGetTokens :: "(rpc \<Rightarrow> response) \<Rightarrow> rpc list \<times> outcome" where
  "cmdRpcFailGetTokens client =
     rpc_cb client (Rpc ''getTokens'' [])
       (\<lambda>err. case err of
                 None \<Rightarrow> Throws (AssertionError ''err'')
               | Some e \<Rightarrow>
                   if endsWith (message e) ''Operation not supported''
                   then subcallback None []
                   else Throws (AssertionError ''Operation not supported''))"

text \<open>
  \<^verbatim>\<open>req.on('error', function (err) {
      assertplus.ok(/relation "bogus" does not exist$/.test(err.message));
      subcallback(); });
  req.on('end', function () { throw (new Error('unexpected "end"')); });\<close>
\<close>

definition cmdRpcFailSql :: "(rpc \<Rightarrow> response) \<Rightarrow> rpc list \<times> outcome" where
  "cmdRpcFailSql client =
     rpc_req client (Rpc ''sql'' [JStr ''SELECT ctid from bogus;''])
       (\<lambda>err. if endsWith (message err)
                    (''relation '' @ quoted ''bogus'' @ '' does not exist'')
               then subcallback None []
               else Throws (AssertionError ''relation bogus does not exist''))
       unexpected_end"

definition cmdRpcFail_funcs :: "((rpc \<Rightarrow> response) \<Rightarrow> rpc list \<times> outcome) list" where
  "cmdRpcFail_funcs =
     [cmdRpcFailCreateBucket, cmdRpcFailGetBucket, cmdRpcFailUpdateBucket,
      cmdRpcFailDeleteBucket, cmdRpcFailPutObject, cmdRpcFailBatch,
      cmdRpcFailGetObject, cmdRpcFailDelObject, cmdRpcFailFindObjects,
      cmdRpcFailUpdateObjects, cmdRpcFailReindexObjects, cmdRpcFailDeleteMany,
      cmdRpcFailGetTokens, cmdRpcFailSql]"

definition cmdRpcFail :: "(rpc \<Rightarrow> response) \<Rightarrow> rpc list \<times> outcome" where
  "cmdRpcFail client = pipeline cmdRpcFail_funcs client"

section \<open>The command runner\<close>

text \<open>
  A command's context (\<^verbatim>\<open>cmdspec.ctx\<close>) with the fields \<^verbatim>\<open>scCommandStart\<close> creates.
  The counter is a JavaScript number that holds a non-negative integer, dates are
  readings of the clock in milliseconds, and the timer is the handle \<^verbatim>\<open>setTimeout\<close>
  returned (\<open>None\<close> is \<^verbatim>\<open>null\<close>). The child logger \<^verbatim>\<open>ctx.log\<close> is represented by the
  records it writes to the shared log.
\<close>

text \<open>
  \<^verbatim>\<open>n++\<close> on a JavaScript number (a double) that holds an integer counted up from 0:
  below \<open>2 ^ 53\<close> the successor is exact; at \<open>2 ^ 53\<close> the sum \<open>2 ^ 53 + 1\<close> is not a
  double and rounds back to \<open>2 ^ 53\<close>, so the number stays where it is.
\<close>

definition js_increment :: "nat \<Rightarrow> nat" where
  "js_increment n = (if n < 2 ^ 53 then n + 1 else n)"

record cmdctx =
  nstarted :: nat
  lastStarted :: "nat option"
  setupStarted :: nat
  setupDone :: "nat option"
  timer :: "nat option"

text \<open>
  An entry of \<^verbatim>\<open>scCommands\<close>: its name, the name of its exec function
  (\<^verbatim>\<open>cmdspec.exec.name\<close>) and its context, undefined until \<^verbatim>\<open>scCommandStart\<close> runs.
  What the setup and exec routines do is the environment's choice, given with the events.
\<close>

record cmdspec =
  name :: string
  exec_name :: string
  ctx :: "cmdctx option"

datatype procstatus = Running | Aborted | Uncaught thrown | Exited nat

datatype logrec =
    StartingIteration string nat
  | FatalError string jserror
  | SetUpAll

text \<open>
  The state of the process: the registry, the clock, the progress of
  \<^verbatim>\<open>vasync.forEachParallel\<close> over the registry (next input to start, setups whose
  callback is still to come, errors collected), the event loop (armed timeouts as handle,
  due time and command; the \<^verbatim>\<open>setImmediate\<close> queue; exec calls whose callback is still
  to come), the log, the lines written with \<^verbatim>\<open>console.error\<close>, and whether the process
  is alive.
\<close>

record sc_state =
  scCommands :: "cmdspec list"
  clock :: nat
  nextStart :: nat
  setups :: "nat list"
  setupErrors :: "jserror list"
  timeouts :: "(nat \<times> nat \<times> nat) list"
  nextHandle :: nat
  immediates :: "nat list"
  execs :: "nat list"
  scLog :: "logrec list"
  console :: "string list"
  proc :: procstatus

definition scWatchdogLimit :: nat where
  "scWatchdogLimit = 30000"

definition get_ctx :: "sc_state \<Rightarrow> nat \<Rightarrow> cmdctx option" where
  "get_ctx s i = (if i < length (scCommands s) then ctx (scCommands s ! i) else None)"

definition set_ctx :: "nat \<Rightarrow> cmdctx \<Rightarrow> sc_state \<Rightarrow> sc_state" where
  "set_ctx i c s = s\<lparr>scCommands := (scCommands s)[i := (scCommands s ! i)\<lparr>ctx := Some c\<rparr>]\<rparr>"

text \<open>The child logger's \<^verbatim>\<open>cmdname\<close>: \<^verbatim>\<open>cmdspec.exec.name || cmdspec.name\<close>.\<close>

definition cmdname :: "cmdspec \<Rightarrow> string" where
  "cmdname cs = (if exec_name cs = [] then name cs else exec_name cs)"

text \<open>Reading a property of \<^verbatim>\<open>undefined\<close> throws a TypeError (its message is not modelled).\<close>

definition typeError :: thrown where
  "typeError = Thrown (JSError ''TypeError'' [] None)"

text \<open>
  \<^verbatim>\<open>scCommandStart\<close> up to the call of \<^verbatim>\<open>cmdspec.setup\<close>: a fresh context, then the
  setup routine is running.
\<close>

definition scCommandStart :: "nat \<Rightarrow> sc_state \<Rightarrow> sc_state" where
  "scCommandStart i s =
     (let s1 = set_ctx i \<lparr>nstarted = 0, lastStarted = None, setupStarted = clock s,
                          setupDone = None, timer = None\<rparr> s
      in s1\<lparr>setups := setups s1 @ [i]\<rparr>)"

text \<open>
  \<^verbatim>\<open>scCommandLoop\<close> up to the call of \<^verbatim>\<open>cmdspec.exec\<close>: count the iteration, log it,
  record its start, arm the watchdog, call exec.
\<close>

definition scCommandLoop :: "nat \<Rightarrow> sc_state \<Rightarrow> sc_state" where
  "scCommandLoop i s =
     (case get_ctx s i of
        None \<Rightarrow> s\<lparr>proc := Uncaught typeError\<rparr>
      | Some c \<Rightarrow>
          let c1 = c\<lparr>nstarted := js_increment (nstarted c)\<rparr>;
              s1 = (set_ctx i c1 s)
                     \<lparr>scLog := scLog s @
                        [StartingIteration (cmdname (scCommands s ! i)) (nstarted c1)]\<rparr>;
              c2 = c1\<lparr>lastStarted := Some (clock s1)\<rparr>;
              h = nextHandle s1;
              c3 = c2\<lparr>timer := Some h\<rparr>;
              s2 = (set_ctx i c3 s1)
                     \<lparr>timeouts := timeouts s1 @ [(h, clock s1 + scWatchdogLimit, i)],
                      nextHandle := h + 1\<rparr>
          in s2\<lparr>execs := execs s2 @ [i]\<rparr>)"

definition clearTimeout :: "nat option \<Rightarrow> sc_state \<Rightarrow> sc_state" where
  "clearTimeout t s =
     (case t of
        None \<Rightarrow> s
      | Some h \<Rightarrow> s\<lparr>timeouts := filter (\<lambda>e. fst e \<noteq> h) (timeouts s)\<rparr>)"

text \<open>
  The callback \<^verbatim>\<open>scCommandLoop\<close> gives to exec:
  \<^verbatim>\<open>clearTimeout(cmdspec.ctx.timer);
  if (err) {
      err = new VError(err, 'exec command "%s"', cmdspec.name);
      cmdspec.ctx.log.fatal(err);
      throw (err);
  }
  setImmediate(scCommandLoop, cmdspec);\<close>
\<close>

definition scCommandLoop_cb :: "nat \<Rightarrow> jserror option \<Rightarrow> sc_state \<Rightarrow> sc_state" where
  "scCommandLoop_cb i err s =
     (case get_ctx s i of
        None \<Rightarrow> s\<lparr>proc := Uncaught typeError\<rparr>
      | Some c \<Rightarrow>
          let s1 = clearTimeout (timer c) s in
          (case err of
             Some e \<Rightarrow>
               let e' = VError_wrap e (''exec command '' @ quoted (name (scCommands s ! i)))
               in s1\<lparr>scLog := scLog s1 @ [FatalError (cmdname (scCommands s ! i)) e'],
                     proc := Uncaught (Thrown e')\<rparr>
           | None \<Rightarrow> s1\<lparr>immediates := immediates s1 @ [i]\<rparr>))"

text \<open>
  \<^verbatim>\<open>console.error('watchdog timer expired for command: "%s"', cmdspec.name);
  console.error('aborting (to dump core)');
  process.abort();\<close>
\<close>

definition scWatchdogFire :: "nat \<Rightarrow> sc_state \<Rightarrow> sc_state" where
  "scWatchdogFire i s =
     s\<lparr>console := console s @
          [''watchdog timer expired for command: '' @ quoted (name (scCommands s ! i)),
           ''aborting (to dump core)''],
       proc := Aborted\<rparr>"

text \<open>
  One input of \<^verbatim>\<open>vasync.forEachParallel\<close> is done. After the last one the final
  callback of \<^verbatim>\<open>main\<close> runs: with an error \<^verbatim>\<open>cmdutil.fail(new VError('setup'))\<close>
  prints the message (the program-name prefix is not modelled) and exits with status 1;
  without, it reports \<^verbatim>\<open>'set up all commands'\<close>.
\<close>

definition forEachParallel_done :: "nat \<Rightarrow> jserror option \<Rightarrow> sc_state \<Rightarrow> sc_state" where
  "forEachParallel_done i err s =
     (let s1 = s\<lparr>setups := remove1 i (setups s),
                  setupErrors := setupErrors s @ (case err of None \<Rightarrow> [] | Some e \<Rightarrow> [e])\<rparr>
      in if setups s1 = [] \<and> nextStart s1 = length (scCommands s1) then
           (if setupErrors s1 \<noteq> [] then
              s1\<lparr>console := console s1 @ [message (VError_new ''setup'')],
                 proc := Exited 1\<rparr>
            else s1\<lparr>scLog := scLog s1 @ [SetUpAll],
                    console := console s1 @ [''set up all commands'']\<rparr>)
         else s1)"

text \<open>
  The callback \<^verbatim>\<open>scCommandStart\<close> gives to setup:
  \<^verbatim>\<open>if (err) { callback(new VError(err, 'setup command "%s"', cmdspec.name)); return; }
  cmdspec.ctx.setupDone = new Date();
  scCommandLoop(cmdspec);
  callback();\<close>
\<close>

definition scCommandStart_cb :: "nat \<Rightarrow> jserror option \<Rightarrow> sc_state \<Rightarrow> sc_state" where
  "scCommandStart_cb i err s =
     (case err of
        Some e \<Rightarrow>
          forEachParallel_done i
            (Some (VError_wrap e (''setup command '' @ quoted (name (scCommands s ! i))))) s
      | None \<Rightarrow>
          (case get_ctx s i of
             None \<Rightarrow> s\<lparr>proc := Uncaught typeError\<rparr>
           | Some c \<Rightarrow>
               forEachParallel_done i None
                 (scCommandLoop i (set_ctx i (c\<lparr>setupDone := Some (clock s)\<rparr>) s))))"

text \<open>
  The events of the event loop, chosen by the environment: time passes;
  \<^verbatim>\<open>forEachParallel\<close> calls \<^verbatim>\<open>scCommandStart\<close> on its next input; a running setup calls
  back; a running exec ends (each call of exec ends at most once); the head of the
  \<^verbatim>\<open>setImmediate\<close> queue runs; an armed timeout that is due fires. A dead process takes
  no event, and an event that is not enabled gives \<open>None\<close>.
\<close>

datatype event =
    Tick nat
  | StartNext
  | SetupDone nat "jserror option"
  | ExecDone nat outcome
  | Immediate
  | Timeout nat

definition step :: "event \<Rightarrow> sc_state \<Rightarrow> sc_state option" where
  "step ev s =
     (if proc s \<noteq> Running then None
      else case ev of
        Tick n \<Rightarrow> Some (s\<lparr>clock := clock s + n\<rparr>)
      | StartNext \<Rightarrow>
          if nextStart s < length (scCommands s)
          then Some (scCommandStart (nextStart s) (s\<lparr>nextStart := nextStart s + 1\<rparr>))
          else None
      | SetupDone i err \<Rightarrow>
          if i \<in> set (setups s) then Some (scCommandStart_cb i err s) else None
      | ExecDone i out \<Rightarrow>
          if i \<in> set (execs s) then
            (case out of
               Callback err \<Rightarrow>
                 Some (scCommandLoop_cb i err (s\<lparr>execs := remove1 i (execs s)\<rparr>))
             | Throws t \<Rightarrow> Some (s\<lparr>proc := Uncaught t\<rparr>)
             | Hangs \<Rightarrow> None)
          else None
      | Immediate \<Rightarrow>
          (case immediates s of
             [] \<Rightarrow> None
           | i # rest \<Rightarrow> Some (scCommandLoop i (s\<lparr>immediates := rest\<rparr>)))
      | Timeout h \<Rightarrow>
          (case find (\<lambda>e. fst e = h) (timeouts s) of
             None \<Rightarrow> None
           | Some (h', due, i) \<Rightarrow>
               if due \<le> clock s
               then Some (scWatchdogFire i
                            (s\<lparr>timeouts := filter (\<lambda>e. fst e \<noteq> h) (timeouts s)\<rparr>))
               else None))"

fun run :: "event list \<Rightarrow> sc_state \<Rightarrow> sc_state option" where
  "run [] s = Some s"
| "run (ev # evs) s = (case step ev s of None \<Rightarrow> None | Some s' \<Rightarrow> run evs s')"

text \<open>
  The process when \<^verbatim>\<open>main\<close> reaches \<^verbatim>\<open>vasync.forEachParallel\<close>: the registry as the
  module built it (names and exec function names, no context yet) and an idle event loop.
\<close>

definition init :: "(string \<times> string) list \<Rightarrow> sc_state" where
  "init cmds =
     \<lparr>scCommands = map (\<lambda>(n, f). \<lparr>name = n, exec_name = f, ctx = None\<rparr>) cmds,
      clock = 0, nextStart = 0, setups = [], setupErrors = [], timeouts = [],
      nextHandle = 0, immediates = [], execs = [], scLog = [], console = [],
      proc = Running\<rparr>"

definition scCommands_registry :: "(string \<times> string) list" where
  "scCommands_registry =
     [(''make RPC requests before ever connected'', ''cmdRpcNeverConnected''),
      (''make RPC requests after connection closed'', ''cmdRpcDisconnected''),
      (''disconnect/reconnect repeatedly'', ''cmdRpcReconnect''),
      (''failed RPC requests'', ''cmdRpcFail''),
      (''successful RPC requests'', ''cmdRpcOkay'')]"

section \<open>The introspection callbacks\<close>

text \<open>
  The three callbacks given to \<^verbatim>\<open>kang.knStartServer\<close>. They take the state and return
  a value: none of them writes to the registry or to a context.
\<close>

definition knListTypes :: "string list" where
  "knListTypes = [''cmd'']"

definition knListObjects :: "string \<Rightarrow> sc_state \<Rightarrow> thrown + nat list" where
  "knListObjects type s =
     (if type \<noteq> ''cmd'' then Inl (AssertionError ''equal(type, cmd)'')
      else Inr (map fst (enumerate 0 (scCommands s))))"

definition knGetObject :: "string \<Rightarrow> nat \<Rightarrow> sc_state \<Rightarrow> thrown + json" where
  "knGetObject type which s =
     (if type \<noteq> ''cmd'' then Inl (AssertionError ''equal(type, cmd)'')
      else if length (scCommands s) \<le> which then Inl typeError
      else
        let cmdspec = scCommands s ! which in
        (case ctx cmdspec of
           None \<Rightarrow> Inl typeError
         | Some c \<Rightarrow>
             Inr (JObj [(''label'', JStr (name cmdspec)),
                        (''funcname'', JStr (exec_name cmdspec)),
                        (''nstarted'', JNum (nstarted c)),
                        (''lastStarted'',
                           case lastStarted c of None \<Rightarrow> JNull | Some t \<Rightarrow> JDate t)])))"

section \<open>Reachable states of the runner\<close>

text \<open>
  What holds in every state the runner can reach (shown below by induction on the run):
  commands are started in registry order and own a context from then on; a command is in
  at most one of the phases "setup running", "exec running" and "next iteration queued",
  and at most once; armed timeouts belong to different commands, each to a command whose
  exec is running, with the handle stored in that command's \<^verbatim>\<open>timer\<close> field and due
  \<open>scWatchdogLimit\<close> after the iteration's start; while the process is alive every running
  exec has its timeout armed; handles are fresh and never shared between commands; the
  \<^verbatim>\<open>timer\<close> field is \<^verbatim>\<open>null\<close> exactly as long as no iteration has started.
\<close>

definition runner_inv :: "sc_state \<Rightarrow> bool" where
  "runner_inv s \<longleftrightarrow>
     nextStart s \<le> length (scCommands s)
   \<and> distinct (execs s @ immediates s @ setups s)
   \<and> (\<forall>i \<in> set (execs s @ immediates s @ setups s). i < nextStart s)
   \<and> (\<forall>i. get_ctx s i \<noteq> None \<longleftrightarrow> i < nextStart s)
   \<and> distinct (map (\<lambda>e. snd (snd e)) (timeouts s))
   \<and> (\<forall>h due i. (h, due, i) \<in> set (timeouts s) \<longrightarrow>
          i \<in> set (execs s) \<and>
          (\<exists>c t. get_ctx s i = Some c \<and> timer c = Some h \<and> lastStarted c = Some t \<and>
                 due = t + scWatchdogLimit))
   \<and> (proc s = Running \<longrightarrow>
          (\<forall>i \<in> set (execs s). \<exists>h due. (h, due, i) \<in> set (timeouts s)))
   \<and> (\<forall>i c h. get_ctx s i = Some c \<and> timer c = Some h \<longrightarrow> h < nextHandle s)
   \<and> (\<forall>i j c c' h. get_ctx s i = Some c \<and> get_ctx s j = Some c' \<and>
          timer c = Some h \<and> timer c' = Some h \<longrightarrow> i = j)
   \<and> (\<forall>i c. get_ctx s i = Some c \<longrightarrow> (timer c = None \<longleftrightarrow> nstarted c = 0))
   \<and> (\<forall>i c. get_ctx s i = Some c \<and> i \<in> set (setups s) \<longrightarrow> nstarted c = 0)"

text \<open>The part of the state the invariant reads.\<close>

definition view ::
  "sc_state \<Rightarrow> (nat \<Rightarrow> cmdctx option) \<times> nat list \<times> nat list \<times> nat list \<times>
     (nat \<times> nat \<times> nat) list \<times> nat \<times> nat \<times> nat" where
  "view s = (get_ctx s, execs s, immediates s, setups s, timeouts s, nextStart s,
             nextHandle s, length (scCommands s))"

section \<open>Example inputs\<close>

text \<open>
  The state the process is in after a list of events, starting from the registry of the
  source (used on lists of events that are all enabled).
\<close>

definition state_after :: "event list \<Rightarrow> sc_state" where
  "state_after evs = the (run evs (init scCommands_registry))"

text \<open>
  A server that answers the failure sweep the way its stages expect: the invalid bucket
  name is refused, \<^verbatim>\<open>updateObjects\<close> without fields is refused, \<^verbatim>\<open>getTokens\<close> is not
  supported, the SQL statement names a relation that does not exist, and every other call
  finds no bucket.
\<close>

definition failing_server :: "rpc \<Rightarrow> response" where
  "failing_server req =
     (if rpc_method req = ''createBucket''
        then RespError (JSError ''InvalidBucketNameError'' ''invalid bucket name'' None)
      else if rpc_method req = ''updateObjects''
        then RespError (JSError ''FieldUpdateError'' ''no fields'' None)
      else if rpc_method req = ''getTokens''
        then RespError (JSError ''Error'' ''Operation not supported'' None)
      else if rpc_method req = ''sql''
        then RespError (JSError ''error''
                          (''relation '' @ quoted ''bogus'' @ '' does not exist'') None)
      else RespError (JSError ''BucketNotFoundError'' ''no such bucket'' None))"

text \<open>The same server, except that \<^verbatim>\<open>getBucket\<close> succeeds.\<close>

definition lenient_server :: "rpc \<Rightarrow> response" where
  "lenient_server req =
     (if rpc_method req = ''getBucket'' then RespOk else failing_server req)"

text \<open>A server on which every call succeeds.\<close>

definition succeeding_server :: "rpc \<Rightarrow> response" where
  "succeeding_server req = RespOk"

text \<open>A client that never reaches a backend, and one reconnect cycle that goes as planned.\<close>

definition unreachable_client :: "rpc \<Rightarrow> response" where
  "unreachable_client req =
     RespError (VError_wrap (JSError ''NoBackendsError'' ''no backends'' None)
                  ''moray client'')"

definition reconnect_cycle :: reconnect_env where
  "reconnect_cycle =
     \<lparr>createServer = CalledBack,
      pings = [RespError (JSError ''NoBackendsError'' ''no backends'' None), RespOk],
      cleanupServer = CalledBack,
      final_ping = RespError (JSError ''FastTransportError'' ''connection closed'' None)\<rparr>"

section \<open>Reading and writing the state\<close>

lemma js_increment_pos [simp]: "js_increment n \<noteq> 0" "0 < js_increment n"
  by (simp_all add: js_increment_def)

lemma js_increment_ge: "n \<le> js_increment n"
  by (simp add: js_increment_def)

lemma js_increment_below: "n < 2 ^ 53 \<Longrightarrow> js_increment n = n + 1"
  by (simp add: js_increment_def)

lemma js_increment_bound: "n \<le> 2 ^ 53 \<Longrightarrow> js_increment n \<le> 2 ^ 53"
  by (simp add: js_increment_def)

lemma js_increment_top: "js_increment (2 ^ 53) = 2 ^ 53"
  by (simp add: js_increment_def)

lemma get_ctx_set_ctx:
  "get_ctx (set_ctx i c s) j = (if j = i \<and> i < length (scCommands s) then Some c else get_ctx s j)"
  by (simp add: get_ctx_def set_ctx_def nth_list_update)

lemma set_ctx_fields [simp]:
  "length (scCommands (set_ctx i c s)) = length (scCommands s)"
  "execs (set_ctx i c s) = execs s"
  "immediates (set_ctx i c s) = immediates s"
  "setups (set_ctx i c s) = setups s"
  "timeouts (set_ctx i c s) = timeouts s"
  "nextStart (set_ctx i c s) = nextStart s"
  "nextHandle (set_ctx i c s) = nextHandle s"
  "proc (set_ctx i c s) = proc s"
  "clock (set_ctx i c s) = clock s"
  "console (set_ctx i c s) = console s"
  "scLog (set_ctx i c s) = scLog s"
  "setupErrors (set_ctx i c s) = setupErrors s"
  by (simp_all add: set_ctx_def)

lemma set_ctx_name [simp]:
  "name (scCommands (set_ctx i c s) ! j) = name (scCommands s ! j)"
proof (cases "i < length (scCommands s)")
  case True
  then show ?thesis by (simp add: set_ctx_def nth_list_update)
next
  case False
  then show ?thesis by (simp add: set_ctx_def not_less list_update_beyond)
qed

lemma set_ctx_exec_name [simp]:
  "exec_name (scCommands (set_ctx i c s) ! j) = exec_name (scCommands s ! j)"
proof (cases "i < length (scCommands s)")
  case True
  then show ?thesis by (simp add: set_ctx_def nth_list_update)
next
  case False
  then show ?thesis by (simp add: set_ctx_def not_less list_update_beyond)
qed

lemma get_ctx_upd [simp]:
  "get_ctx (s\<lparr>clock := a1\<rparr>) = get_ctx s"
  "get_ctx (s\<lparr>nextStart := a2\<rparr>) = get_ctx s"
  "get_ctx (s\<lparr>setups := a3\<rparr>) = get_ctx s"
  "get_ctx (s\<lparr>setupErrors := a4\<rparr>) = get_ctx s"
  "get_ctx (s\<lparr>timeouts := a5\<rparr>) = get_ctx s"
  "get_ctx (s\<lparr>nextHandle := a6\<rparr>) = get_ctx s"
  "get_ctx (s\<lparr>immediates := a7\<rparr>) = get_ctx s"
  "get_ctx (s\<lparr>execs := a8\<rparr>) = get_ctx s"
  "get_ctx (s\<lparr>scLog := a9\<rparr>) = get_ctx s"
  "get_ctx (s\<lparr>console := a10\<rparr>) = get_ctx s"
  "get_ctx (s\<lparr>proc := a11\<rparr>) = get_ctx s"
  by (simp_all add: get_ctx_def fun_eq_iff)

lemma get_ctx_SomeD: "get_ctx s i = Some c \<Longrightarrow> i < length (scCommands s)"
  by (simp add: get_ctx_def split: if_splits)

lemma scCommandLoop_fields:
  assumes "get_ctx s i = Some c"
  shows "get_ctx (scCommandLoop i s) j =
           (if j = i then Some (c\<lparr>nstarted := js_increment (nstarted c),
                                  lastStarted := Some (clock s),
                                  timer := Some (nextHandle s)\<rparr>) else get_ctx s j)"
    and "execs (scCommandLoop i s) = execs s @ [i]"
    and "timeouts (scCommandLoop i s) = timeouts s @ [(nextHandle s, clock s + scWatchdogLimit, i)]"
    and "nextHandle (scCommandLoop i s) = nextHandle s + 1"
    and "immediates (scCommandLoop i s) = immediates s"
    and "setups (scCommandLoop i s) = setups s"
    and "nextStart (scCommandLoop i s) = nextStart s"
    and "proc (scCommandLoop i s) = proc s"
    and "length (scCommands (scCommandLoop i s)) = length (scCommands s)"
    and "console (scCommandLoop i s) = console s"
    and "clock (scCommandLoop i s) = clock s"
    and "setupErrors (scCommandLoop i s) = setupErrors s"
    and "name (scCommands (scCommandLoop i s) ! j) = name (scCommands s ! j)"
  using assms get_ctx_SomeD [OF assms]
  by (simp_all add: scCommandLoop_def Let_def get_ctx_set_ctx)

lemma scCommandStart_fields:
  assumes "i < length (scCommands s)"
  shows "get_ctx (scCommandStart i s) j =
           (if j = i then Some \<lparr>nstarted = 0, lastStarted = None, setupStarted = clock s,
                                 setupDone = None, timer = None\<rparr> else get_ctx s j)"
    and "setups (scCommandStart i s) = setups s @ [i]"
    and "execs (scCommandStart i s) = execs s"
    and "timeouts (scCommandStart i s) = timeouts s"
    and "nextHandle (scCommandStart i s) = nextHandle s"
    and "immediates (scCommandStart i s) = immediates s"
    and "nextStart (scCommandStart i s) = nextStart s"
    and "proc (scCommandStart i s) = proc s"
    and "length (scCommands (scCommandStart i s)) = length (scCommands s)"
  using assms by (simp_all add: scCommandStart_def Let_def get_ctx_set_ctx)

lemma forEachParallel_done_fields:
  shows "get_ctx (forEachParallel_done i err s) = get_ctx s"
    and "setups (forEachParallel_done i err s) = remove1 i (setups s)"
    and "execs (forEachParallel_done i err s) = execs s"
    and "timeouts (forEachParallel_done i err s) = timeouts s"
    and "nextHandle (forEachParallel_done i err s) = nextHandle s"
    and "immediates (forEachParallel_done i err s) = immediates s"
    and "nextStart (forEachParallel_done i err s) = nextStart s"
    and "proc (forEachParallel_done i err s) = proc s \<or> proc (forEachParallel_done i err s) = Exited 1"
    and "length (scCommands (forEachParallel_done i err s)) = length (scCommands s)"
  by (simp_all add: forEachParallel_done_def Let_def)

lemma scCommandLoop_cb_fields:
  assumes "get_ctx s i = Some c"
  shows "get_ctx (scCommandLoop_cb i err s) = get_ctx s"
    and "setups (scCommandLoop_cb i err s) = setups s"
    and "execs (scCommandLoop_cb i err s) = execs s"
    and "timeouts (scCommandLoop_cb i err s) =
           (case timer c of None \<Rightarrow> timeouts s
            | Some h \<Rightarrow> filter (\<lambda>e. fst e \<noteq> h) (timeouts s))"
    and "nextHandle (scCommandLoop_cb i err s) = nextHandle s"
    and "immediates (scCommandLoop_cb i err s) =
           (case err of None \<Rightarrow> immediates s @ [i] | Some e \<Rightarrow> immediates s)"
    and "nextStart (scCommandLoop_cb i err s) = nextStart s"
    and "proc (scCommandLoop_cb i err s) =
           (case err of None \<Rightarrow> proc s
            | Some e \<Rightarrow> Uncaught (Thrown (VError_wrap e
                          (''exec command '' @ quoted (name (scCommands s ! i))))))"
    and "length (scCommands (scCommandLoop_cb i err s)) = length (scCommands s)"
  using assms
  by (simp_all add: scCommandLoop_cb_def clearTimeout_def Let_def split: option.splits)

section \<open>The invariant holds in every reachable state\<close>

lemma runner_invD:
  assumes "runner_inv s"
  shows inv_len: "nextStart s \<le> length (scCommands s)"
    and inv_distinct: "distinct (execs s @ immediates s @ setups s)"
    and inv_started: "\<forall>i \<in> set (execs s @ immediates s @ setups s). i < nextStart s"
    and inv_ctx: "\<forall>i. get_ctx s i \<noteq> None \<longleftrightarrow> i < nextStart s"
    and inv_tdistinct: "distinct (map (\<lambda>e. snd (snd e)) (timeouts s))"
    and inv_timeout: "\<forall>h due i. (h, due, i) \<in> set (timeouts s) \<longrightarrow>
          i \<in> set (execs s) \<and>
          (\<exists>c t. get_ctx s i = Some c \<and> timer c = Some h \<and> lastStarted c = Some t \<and>
                 due = t + scWatchdogLimit)"
    and inv_armed: "proc s = Running \<longrightarrow>
          (\<forall>i \<in> set (execs s). \<exists>h due. (h, due, i) \<in> set (timeouts s))"
    and inv_fresh: "\<forall>i c h. get_ctx s i = Some c \<and> timer c = Some h \<longrightarrow> h < nextHandle s"
    and inv_own: "\<forall>i j c c' h. get_ctx s i = Some c \<and> get_ctx s j = Some c' \<and>
          timer c = Some h \<and> timer c' = Some h \<longrightarrow> i = j"
    and inv_null: "\<forall>i c. get_ctx s i = Some c \<longrightarrow> (timer c = None \<longleftrightarrow> nstarted c = 0)"
    and inv_setup: "\<forall>i c. get_ctx s i = Some c \<and> i \<in> set (setups s) \<longrightarrow> nstarted c = 0"
  using assms by (simp_all add: runner_inv_def)

lemma runner_invI:
  assumes "nextStart s \<le> length (scCommands s)"
    and "distinct (execs s @ immediates s @ setups s)"
    and "\<forall>i \<in> set (execs s @ immediates s @ setups s). i < nextStart s"
    and "\<forall>i. get_ctx s i \<noteq> None \<longleftrightarrow> i < nextStart s"
    and "distinct (map (\<lambda>e. snd (snd e)) (timeouts s))"
    and "\<forall>h due i. (h, due, i) \<in> set (timeouts s) \<longrightarrow>
          i \<in> set (execs s) \<and>
          (\<exists>c t. get_ctx s i = Some c \<and> timer c = Some h \<and> lastStarted c = Some t \<and>
                 due = t + scWatchdogLimit)"
    and "proc s = Running \<longrightarrow>
          (\<forall>i \<in> set (execs s). \<exists>h due. (h, due, i) \<in> set (timeouts s))"
    and "\<forall>i c h. get_ctx s i = Some c \<and> timer c = Some h \<longrightarrow> h < nextHandle s"
    and "\<forall>i j c c' h. get_ctx s i = Some c \<and> get_ctx s j = Some c' \<and>
          timer c = Some h \<and> timer c' = Some h \<longrightarrow> i = j"
    and "\<forall>i c. get_ctx s i = Some c \<longrightarrow> (timer c = None \<longleftrightarrow> nstarted c = 0)"
    and "\<forall>i c. get_ctx s i = Some c \<and> i \<in> set (setups s) \<longrightarrow> nstarted c = 0"
  shows "runner_inv s"
  unfolding runner_inv_def by (intro conjI) (rule assms)+

lemma runner_inv_view:
  assumes "runner_inv s" "view t = view s" "proc t = proc s \<or> proc t \<noteq> Running"
  shows "runner_inv t"
  using assms unfolding runner_inv_def view_def by (elim disjE conjE) simp_all

lemma runner_inv_init: "runner_inv (init cmds)"
  by (simp add: runner_inv_def init_def get_ctx_def split: prod.splits)

lemma runner_inv_Tick: "runner_inv s \<Longrightarrow> runner_inv (s\<lparr>clock := n\<rparr>)"
  by (erule runner_inv_view) (simp_all add: view_def)

lemma runner_inv_dead: "runner_inv s \<Longrightarrow> st \<noteq> Running \<Longrightarrow> runner_inv (s\<lparr>proc := st\<rparr>)"
  by (erule runner_inv_view) (simp_all add: view_def)

lemma runner_inv_scCommandStart:
  assumes "runner_inv s" "nextStart s < length (scCommands s)"
  shows "runner_inv (scCommandStart (nextStart s) (s\<lparr>nextStart := nextStart s + 1\<rparr>))"
proof -
  let ?s1 = "s\<lparr>nextStart := nextStart s + 1\<rparr>"
  have len: "nextStart s < length (scCommands ?s1)" using assms(2) by simp
  note f = scCommandStart_fields [OF len]
  show ?thesis
    using assms unfolding runner_inv_def f
    by (auto simp: less_Suc_eq)
qed

lemma runner_inv_scCommandLoop:
  assumes inv: "runner_inv s" and c: "get_ctx s i = Some c"
    and idle: "i \<notin> set (execs s)" "i \<notin> set (immediates s)" "i \<notin> set (setups s)"
  shows "runner_inv (scCommandLoop i s)"
proof -
  note f = scCommandLoop_fields [OF c]
  have notimer: "\<And>h due. (h, due, i) \<notin> set (timeouts s)"
    using inv idle(1) unfolding runner_inv_def by blast
  have fresh: "\<And>j c' h. get_ctx s j = Some c' \<Longrightarrow> timer c' = Some h \<Longrightarrow> h < nextHandle s"
    using inv unfolding runner_inv_def by blast
  have started: "i < nextStart s"
    using inv c unfolding runner_inv_def by (metis option.distinct(1))
  have "distinct (map (\<lambda>e. snd (snd e)) (timeouts (scCommandLoop i s)))"
    using inv notimer unfolding runner_inv_def f by force
  moreover have "\<forall>h due j. (h, due, j) \<in> set (timeouts (scCommandLoop i s)) \<longrightarrow>
          j \<in> set (execs (scCommandLoop i s)) \<and>
          (\<exists>c t. get_ctx (scCommandLoop i s) j = Some c \<and> timer c = Some h \<and>
                 lastStarted c = Some t \<and> due = t + scWatchdogLimit)"
    using inv notimer unfolding runner_inv_def f by auto
  moreover have "\<forall>j c h. get_ctx (scCommandLoop i s) j = Some c \<and> timer c = Some h \<longrightarrow>
          h < nextHandle (scCommandLoop i s)"
    using fresh unfolding f by (auto simp: less_Suc_eq split: if_splits)
  moreover have "\<forall>j k c c' h. get_ctx (scCommandLoop i s) j = Some c \<and>
          get_ctx (scCommandLoop i s) k = Some c' \<and>
          timer c = Some h \<and> timer c' = Some h \<longrightarrow> j = k"
  proof (intro allI impI)
    fix j k c1 c2 h
    assume a: "get_ctx (scCommandLoop i s) j = Some c1 \<and>
          get_ctx (scCommandLoop i s) k = Some c2 \<and> timer c1 = Some h \<and> timer c2 = Some h"
    show "j = k"
    proof (cases "j = i"; cases "k = i")
      assume "j = i" "k \<noteq> i"
      with a have "h = nextHandle s" "get_ctx s k = Some c2" by (auto simp: f)
      with a fresh [of k c2 h] show ?thesis by simp
    next
      assume "j \<noteq> i" "k = i"
      with a have "h = nextHandle s" "get_ctx s j = Some c1" by (auto simp: f)
      with a fresh [of j c1 h] show ?thesis by simp
    next
      assume "j \<noteq> i" "k \<noteq> i"
      with a have "get_ctx s j = Some c1" "get_ctx s k = Some c2" by (auto simp: f)
      with a inv show ?thesis unfolding runner_inv_def by blast
    qed simp
  qed
  moreover have "nextStart (scCommandLoop i s) \<le> length (scCommands (scCommandLoop i s))"
    using inv unfolding runner_inv_def f by simp
  moreover have "distinct (execs (scCommandLoop i s) @ immediates (scCommandLoop i s) @
                           setups (scCommandLoop i s))"
    using inv idle unfolding runner_inv_def f by auto
  moreover have "\<forall>j \<in> set (execs (scCommandLoop i s) @ immediates (scCommandLoop i s) @
                           setups (scCommandLoop i s)). j < nextStart (scCommandLoop i s)"
    using inv started unfolding runner_inv_def f by auto
  moreover have "\<forall>j. get_ctx (scCommandLoop i s) j \<noteq> None \<longleftrightarrow> j < nextStart (scCommandLoop i s)"
    using inv started unfolding runner_inv_def f by auto
  moreover have "proc (scCommandLoop i s) = Running \<longrightarrow>
          (\<forall>j \<in> set (execs (scCommandLoop i s)). \<exists>h due. (h, due, j) \<in> set (timeouts (scCommandLoop i s)))"
  proof (intro impI ballI)
    fix j assume r: "proc (scCommandLoop i s) = Running" and j: "j \<in> set (execs (scCommandLoop i s))"
    show "\<exists>h due. (h, due, j) \<in> set (timeouts (scCommandLoop i s))"
    proof (cases "j = i")
      case True
      then show ?thesis unfolding f by auto
    next
      case False
      with j have "j \<in> set (execs s)" unfolding f by simp
      moreover from r have "proc s = Running" unfolding f .
      ultimately obtain h due where "(h, due, j) \<in> set (timeouts s)"
        using inv unfolding runner_inv_def by blast
      then show ?thesis unfolding f by auto
    qed
  qed
  moreover have "\<forall>j c. get_ctx (scCommandLoop i s) j = Some c \<longrightarrow> (timer c = None \<longleftrightarrow> nstarted c = 0)"
    using inv unfolding runner_inv_def f by auto
  moreover have "\<forall>j c. get_ctx (scCommandLoop i s) j = Some c \<and> j \<in> set (setups (scCommandLoop i s))
          \<longrightarrow> nstarted c = 0"
    using inv idle unfolding runner_inv_def f by auto
  ultimately show ?thesis unfolding runner_inv_def by blast
qed

lemma runner_inv_unqueue:
  assumes inv: "runner_inv s" and q: "immediates s = i # rest"
  shows "runner_inv (s\<lparr>immediates := rest\<rparr>)"
    and "i \<notin> set (execs s)" and "i \<notin> set rest" and "i \<notin> set (setups s)"
    and "get_ctx s i \<noteq> None"
proof -
  note d = runner_invD [OF inv]
  show "i \<notin> set (execs s)" "i \<notin> set rest" "i \<notin> set (setups s)"
    using inv_distinct [OF inv] q by auto
  show "get_ctx s i \<noteq> None"
    using inv_ctx [OF inv] inv_started [OF inv] q by simp
  show "runner_inv (s\<lparr>immediates := rest\<rparr>)"
  proof (rule runner_invI)
    show "distinct (execs (s\<lparr>immediates := rest\<rparr>) @ immediates (s\<lparr>immediates := rest\<rparr>) @
            setups (s\<lparr>immediates := rest\<rparr>))"
      using inv_distinct [OF inv] q by auto
    show "\<forall>j \<in> set (execs (s\<lparr>immediates := rest\<rparr>) @ immediates (s\<lparr>immediates := rest\<rparr>) @
            setups (s\<lparr>immediates := rest\<rparr>)). j < nextStart (s\<lparr>immediates := rest\<rparr>)"
      using inv_started [OF inv] q by auto
  qed (use d(1,4-11) in \<open>simp_all\<close>)
qed

lemma runner_inv_forEachParallel_done:
  assumes inv: "runner_inv s"
  shows "runner_inv (forEachParallel_done i err s)"
proof -
  let ?u = "s\<lparr>setups := remove1 i (setups s)\<rparr>"
  let ?t = "forEachParallel_done i err s"
  note f = forEachParallel_done_fields [of i err s]
  note d = runner_invD [OF inv]
  have "runner_inv ?u"
  proof (rule runner_invI)
    show "distinct (execs ?u @ immediates ?u @ setups ?u)"
      using inv_distinct [OF inv] by (auto dest: notin_set_remove1)
    show "\<forall>j \<in> set (execs ?u @ immediates ?u @ setups ?u). j < nextStart ?u"
      using inv_started [OF inv] by (auto dest: notin_set_remove1)
    show "\<forall>j c. get_ctx ?u j = Some c \<and> j \<in> set (setups ?u) \<longrightarrow> nstarted c = 0"
      using inv_setup [OF inv] set_remove1_subset [of i "setups s"] by auto
  qed (use d(1,4-10) in \<open>simp_all\<close>)
  moreover have "view ?t = view ?u"
    by (simp add: view_def f)
  moreover have "proc ?t = proc ?u \<or> proc ?t \<noteq> Running"
    using f(8) by auto
  ultimately show ?thesis by (rule runner_inv_view)
qed

lemma runner_inv_scCommandLoop_cb:
  assumes inv: "runner_inv s" and run: "proc s = Running" and e: "i \<in> set (execs s)"
  shows "runner_inv (scCommandLoop_cb i err (s\<lparr>execs := remove1 i (execs s)\<rparr>))"
proof -
  let ?s0 = "s\<lparr>execs := remove1 i (execs s)\<rparr>"
  let ?t = "scCommandLoop_cb i err ?s0"
  note d = runner_invD [OF inv]
  from inv_armed [OF inv] run e obtain h due where t: "(h, due, i) \<in> set (timeouts s)"
    by blast
  with inv_timeout [OF inv] obtain c where c: "get_ctx s i = Some c" and h: "timer c = Some h"
    by blast
  have c0: "get_ctx ?s0 i = Some c" using c by simp
  note f = scCommandLoop_cb_fields [OF c0, of err]
  have dx: "distinct (execs s)" "i \<notin> set (immediates s)" "i \<notin> set (setups s)"
    using inv_distinct [OF inv] e by auto
  have ex: "set (remove1 i (execs s)) = set (execs s) - {i}"
    using dx(1) by simp
  have other: "(h' = h \<longleftrightarrow> j = i)" if a: "(h', due', j) \<in> set (timeouts s)" for h' due' j
  proof -
    from inv_timeout [OF inv] a obtain c' where c': "get_ctx s j = Some c'" "timer c' = Some h'"
      by blast
    show "h' = h \<longleftrightarrow> j = i"
    proof
      assume "h' = h"
      with c c' h inv_own [OF inv] show "j = i" by blast
    next
      assume "j = i"
      with c c' h show "h' = h" by simp
    qed
  qed
  have tm: "timeouts ?t = filter (\<lambda>e. fst e \<noteq> h) (timeouts s)"
    using h by (simp add: f)
  have tset: "(h', due', j) \<in> set (timeouts ?t) \<longleftrightarrow>
                 (h', due', j) \<in> set (timeouts s) \<and> j \<noteq> i" for h' due' j
    using other [of h' due' j] unfolding tm by auto
  have ims1: "set (immediates ?t) \<subseteq> insert i (set (immediates s))"
    using f(6) by (cases err) auto
  have ims2: "err = None \<Longrightarrow> immediates ?t = immediates s @ [i]"
    using f(6) by (cases err) auto
  have ims3: "err \<noteq> None \<Longrightarrow> immediates ?t = immediates s"
    using f(6) by (cases err) auto
  show ?thesis
  proof (rule runner_invI)
    show "distinct (map (\<lambda>e. snd (snd e)) (timeouts ?t))"
      using inv_tdistinct [OF inv] unfolding tm by (simp add: distinct_map_filter)
    show "\<forall>h due j. (h, due, j) \<in> set (timeouts ?t) \<longrightarrow>
          j \<in> set (execs ?t) \<and>
          (\<exists>c t. get_ctx ?t j = Some c \<and> timer c = Some h \<and>
                 lastStarted c = Some t \<and> due = t + scWatchdogLimit)"
      using inv_timeout [OF inv] unfolding tset by (auto simp: f(1,3) ex)
    show "proc ?t = Running \<longrightarrow>
            (\<forall>j \<in> set (execs ?t). \<exists>h due. (h, due, j) \<in> set (timeouts ?t))"
      using inv_armed [OF inv] run unfolding tset by (simp add: f(3) ex)
    show "distinct (execs ?t @ immediates ?t @ setups ?t)"
      using inv_distinct [OF inv] dx ims2 ims3 f(2,3) by (cases err) (auto simp: ex)
    show "\<forall>j \<in> set (execs ?t @ immediates ?t @ setups ?t). j < nextStart ?t"
      using inv_started [OF inv] e ims1 by (auto simp: f(2,3,7) ex)
    show "nextStart ?t \<le> length (scCommands ?t)"
      using d(1) by (simp add: f)
    show "\<forall>j. get_ctx ?t j \<noteq> None \<longleftrightarrow> j < nextStart ?t"
      using d(4) by (simp add: f)
    show "\<forall>j c h. get_ctx ?t j = Some c \<and> timer c = Some h \<longrightarrow> h < nextHandle ?t"
      using d(8) by (simp add: f)
    show "\<forall>j k c c' h. get_ctx ?t j = Some c \<and> get_ctx ?t k = Some c' \<and>
          timer c = Some h \<and> timer c' = Some h \<longrightarrow> j = k"
      using d(9) by (simp add: f)
    show "\<forall>j c. get_ctx ?t j = Some c \<longrightarrow> (timer c = None \<longleftrightarrow> nstarted c = 0)"
      using d(10) by (simp add: f)
    show "\<forall>j c. get_ctx ?t j = Some c \<and> j \<in> set (setups ?t) \<longrightarrow> nstarted c = 0"
      using d(11) by (simp add: f)
  qed
qed

lemma runner_inv_Timeout:
  assumes inv: "runner_inv s"
  shows "runner_inv (scWatchdogFire i (s\<lparr>timeouts := filter (\<lambda>e. fst e \<noteq> h) (timeouts s)\<rparr>))"
proof -
  let ?u = "s\<lparr>timeouts := filter (\<lambda>e. fst e \<noteq> h) (timeouts s), proc := Aborted\<rparr>"
  let ?t = "scWatchdogFire i (s\<lparr>timeouts := filter (\<lambda>e. fst e \<noteq> h) (timeouts s)\<rparr>)"
  note d = runner_invD [OF inv]
  have "runner_inv ?u"
  proof (rule runner_invI)
    show "distinct (map (\<lambda>e. snd (snd e)) (timeouts ?u))"
      using inv_tdistinct [OF inv] by (simp add: distinct_map_filter)
    show "\<forall>h due j. (h, due, j) \<in> set (timeouts ?u) \<longrightarrow>
          j \<in> set (execs ?u) \<and>
          (\<exists>c t. get_ctx ?u j = Some c \<and> timer c = Some h \<and>
                 lastStarted c = Some t \<and> due = t + scWatchdogLimit)"
      using inv_timeout [OF inv] by auto
  qed (use d(1-4,8-11) in \<open>simp_all\<close>)
  moreover have "view ?t = view ?u" by (simp add: view_def scWatchdogFire_def get_ctx_def)
  moreover have "proc ?t = proc ?u \<or> proc ?t \<noteq> Running" by (simp add: scWatchdogFire_def)
  ultimately show ?thesis by (rule runner_inv_view)
qed

lemma runner_inv_scCommandStart_cb:
  assumes inv: "runner_inv s" and i: "i \<in> set (setups s)"
  shows "runner_inv (scCommandStart_cb i err s)"
proof (cases err)
  case (Some e)
  then show ?thesis
    using runner_inv_forEachParallel_done [OF inv] by (simp add: scCommandStart_cb_def)
next
  case None
  show ?thesis
  proof (cases "get_ctx s i")
    case no: None
    with None show ?thesis
      using runner_inv_dead [OF inv] by (simp add: scCommandStart_cb_def)
  next
    case (Some c)
    let ?c = "c\<lparr>setupDone := Some (clock s)\<rparr>"
    let ?u = "(set_ctx i ?c s)\<lparr>setups := remove1 i (setups s)\<rparr>"
    let ?s1 = "set_ctx i ?c s"
    let ?t = "forEachParallel_done i None (scCommandLoop i ?s1)"
    note d = runner_invD [OF inv]
    have len: "i < length (scCommands s)" using Some by (rule get_ctx_SomeD)
    have gu: "get_ctx ?u j = (if j = i then Some ?c else get_ctx s j)" for j
      using len by (simp add: get_ctx_set_ctx)
    have dx: "distinct (setups s)" "i \<notin> set (execs s)" "i \<notin> set (immediates s)"
      using inv_distinct [OF inv] i by auto
    have sx: "set (remove1 i (setups s)) = set (setups s) - {i}"
      using dx(1) by simp
    have invu: "runner_inv ?u"
    proof (rule runner_invI)
      show "distinct (execs ?u @ immediates ?u @ setups ?u)"
        using inv_distinct [OF inv] by (auto simp: sx)
      show "\<forall>j \<in> set (execs ?u @ immediates ?u @ setups ?u). j < nextStart ?u"
        using inv_started [OF inv] by (auto simp: sx)
      show "\<forall>j. get_ctx ?u j \<noteq> None \<longleftrightarrow> j < nextStart ?u"
        using inv_ctx [OF inv] Some unfolding gu by auto
      show "\<forall>h due j. (h, due, j) \<in> set (timeouts ?u) \<longrightarrow>
          j \<in> set (execs ?u) \<and>
          (\<exists>c t. get_ctx ?u j = Some c \<and> timer c = Some h \<and>
                 lastStarted c = Some t \<and> due = t + scWatchdogLimit)"
        using inv_timeout [OF inv] Some dx(2) unfolding gu by auto
      show "\<forall>j c h. get_ctx ?u j = Some c \<and> timer c = Some h \<longrightarrow> h < nextHandle ?u"
        using inv_fresh [OF inv] Some unfolding gu by auto
      show "\<forall>j k c c' h. get_ctx ?u j = Some c \<and> get_ctx ?u k = Some c' \<and>
          timer c = Some h \<and> timer c' = Some h \<longrightarrow> j = k"
      proof (intro allI impI)
        fix j k c1 c2 h
        assume a: "get_ctx ?u j = Some c1 \<and> get_ctx ?u k = Some c2 \<and>
          timer c1 = Some h \<and> timer c2 = Some h"
        then obtain d1 d2 where "get_ctx s j = Some d1" "get_ctx s k = Some d2"
          "timer d1 = Some h" "timer d2 = Some h"
          using Some unfolding gu by (auto split: if_splits)
        with inv_own [OF inv] show "j = k" by blast
      qed
      show "\<forall>j c. get_ctx ?u j = Some c \<longrightarrow> (timer c = None \<longleftrightarrow> nstarted c = 0)"
        using inv_null [OF inv] Some unfolding gu by auto
      show "\<forall>j c. get_ctx ?u j = Some c \<and> j \<in> set (setups ?u) \<longrightarrow> nstarted c = 0"
        using inv_setup [OF inv] unfolding gu by (auto simp: sx)
    qed (use d(1,5,7) in \<open>simp_all\<close>)
    have cu: "get_ctx ?u i = Some ?c" using len by (simp add: get_ctx_set_ctx)
    have "runner_inv (scCommandLoop i ?u)"
      using invu cu
    proof (rule runner_inv_scCommandLoop)
      show "i \<notin> set (execs ?u)" "i \<notin> set (immediates ?u)" "i \<notin> set (setups ?u)"
        using dx by (simp_all add: sx)
    qed
    moreover have c1: "get_ctx ?s1 i = Some ?c" using len by (simp add: get_ctx_set_ctx)
    have "view ?t = view (scCommandLoop i ?u)"
      by (simp add: view_def forEachParallel_done_fields scCommandLoop_fields [OF c1]
            scCommandLoop_fields [OF cu] fun_eq_iff get_ctx_set_ctx len)
    moreover have "proc ?t = proc (scCommandLoop i ?u) \<or> proc ?t \<noteq> Running"
      using forEachParallel_done_fields(8) [of i None "scCommandLoop i ?s1"]
      by (auto simp: scCommandLoop_fields [OF c1] scCommandLoop_fields [OF cu])
    ultimately have "runner_inv ?t" by (rule runner_inv_view)
    with None Some show ?thesis by (simp add: scCommandStart_cb_def)
  qed
qed

lemma runner_inv_step:
  assumes inv: "runner_inv s" and st: "step ev s = Some s'"
  shows "runner_inv s'"
proof -
  from st have run: "proc s = Running" by (auto simp: step_def split: if_splits)
  show ?thesis
  proof (cases ev)
    case (Tick n)
    with st run runner_inv_Tick [OF inv] show ?thesis by (auto simp: step_def)
  next
    case StartNext
    with st run runner_inv_scCommandStart [OF inv] show ?thesis
      by (auto simp: step_def split: if_splits)
  next
    case (SetupDone i err)
    with st run runner_inv_scCommandStart_cb [OF inv] show ?thesis
      by (auto simp: step_def split: if_splits)
  next
    case (ExecDone i out)
    with st run runner_inv_scCommandLoop_cb [OF inv run] runner_inv_dead [OF inv]
    show ?thesis
      by (cases out) (auto simp: step_def split: if_splits)
  next
    case Immediate
    with st run obtain i rest where q: "immediates s = i # rest"
      and s': "s' = scCommandLoop i (s\<lparr>immediates := rest\<rparr>)"
      by (auto simp: step_def split: list.splits)
    note u = runner_inv_unqueue [OF inv q]
    from u(5) obtain c where c: "get_ctx (s\<lparr>immediates := rest\<rparr>) i = Some c" by auto
    show ?thesis unfolding s'
      using u(1) c by (rule runner_inv_scCommandLoop) (use u in simp_all)
  next
    case (Timeout h)
    with st run runner_inv_Timeout [OF inv] show ?thesis
      by (auto simp: step_def split: option.splits if_splits)
  qed
qed

lemma runner_inv_run:
  "runner_inv s \<Longrightarrow> run evs s = Some s' \<Longrightarrow> runner_inv s'"
  by (induction evs arbitrary: s) (auto split: option.splits dest: runner_inv_step)

lemma runner_inv_reachable: "run evs (init cmds) = Some s \<Longrightarrow> runner_inv s"
  using runner_inv_init by (rule runner_inv_run)

lemma reach_inv: "run evs (init cmds) = Some s \<Longrightarrow> runner_inv s"
  by (rule runner_inv_reachable)

lemma reach_exec_ctx:
  assumes "runner_inv s" "i \<in> set (execs s)"
  shows "\<exists>c. get_ctx s i = Some c"
  using inv_started [OF assms(1)] inv_ctx [OF assms(1)] assms(2) by auto

lemma inv_handles_distinct:
  assumes inv: "runner_inv s"
  shows "distinct (map fst (timeouts s))"
proof -
  have d: "distinct (timeouts s)" and inj: "inj_on (\<lambda>e. snd (snd e)) (set (timeouts s))"
    using inv_tdistinct [OF inv] by (auto simp: distinct_map)
  have "inj_on fst (set (timeouts s))"
  proof (rule inj_onI)
    fix x y assume x: "x \<in> set (timeouts s)" and y: "y \<in> set (timeouts s)" and eq: "fst x = fst y"
    obtain h d1 i where xe: "x = (h, d1, i)" by (cases x) auto
    obtain h' d2 j where ye: "y = (h', d2, j)" by (cases y) auto
    from eq xe ye have hh: "h' = h" by simp
    from inv_timeout [OF inv] x xe obtain c
      where c: "get_ctx s i = Some c" "timer c = Some h" by blast
    from inv_timeout [OF inv] y ye hh obtain c'
      where c': "get_ctx s j = Some c'" "timer c' = Some h" by blast
    from inv_own [OF inv] c c' have "i = j" by blast
    then have "snd (snd x) = snd (snd y)" using xe ye by simp
    with inj x y show "x = y" by (auto dest: inj_onD)
  qed
  with d show ?thesis by (simp add: distinct_map)
qed

section \<open>Steps of the event loop\<close>

lemma step_dead: "proc s \<noteq> Running \<Longrightarrow> step ev s = None"
  by (simp add: step_def)

lemma run_dead: "proc s \<noteq> Running \<Longrightarrow> evs \<noteq> [] \<Longrightarrow> run evs s = None"
  by (cases evs) (simp_all add: step_dead)

lemma step_ExecDone_Callback:
  assumes "step (ExecDone i (Callback err)) s = Some s'" "get_ctx s i = Some c"
  shows "s' = scCommandLoop_cb i err (s\<lparr>execs := remove1 i (execs s)\<rparr>)"
    and "proc s = Running" and "i \<in> set (execs s)"
  using assms by (auto simp: step_def split: if_splits)

lemma step_ExecDone_alive:
  assumes inv: "runner_inv s" and st: "step (ExecDone i out) s = Some s'"
  shows "proc s' = Running \<longleftrightarrow> out = Callback None"
    and "out = Callback None \<Longrightarrow> immediates s' = immediates s @ [i]"
    and "out \<noteq> Callback None \<Longrightarrow> immediates s' = immediates s"
proof -
  from st have run: "proc s = Running" and e: "i \<in> set (execs s)"
    by (auto simp: step_def split: if_splits)
  from reach_exec_ctx [OF inv e] obtain c where c: "get_ctx s i = Some c" ..
  then have c0: "get_ctx (s\<lparr>execs := remove1 i (execs s)\<rparr>) i = Some c" by simp
  note f = scCommandLoop_cb_fields [OF c0]
  show "proc s' = Running \<longleftrightarrow> out = Callback None"
    using st run e f(8)
    by (cases out) (auto simp: step_def split: if_splits option.splits)
  show "out = Callback None \<Longrightarrow> immediates s' = immediates s @ [i]"
    using st run e f(6) [of None] by (auto simp: step_def split: if_splits)
  show "out \<noteq> Callback None \<Longrightarrow> immediates s' = immediates s"
    using st run e f(6)
    by (cases out) (auto simp: step_def split: if_splits option.splits)
qed

lemma step_nstarted:
  assumes inv: "runner_inv s" and st: "step ev s = Some s'" and c: "get_ctx s i = Some c"
  shows "\<exists>c'. get_ctx s' i = Some c' \<and>
           nstarted c' = (if execs s' = execs s @ [i] then js_increment (nstarted c)
                          else nstarted c)"
proof -
  from st have run: "proc s = Running" by (auto simp: step_def split: if_splits)
  have started: "i < nextStart s" using inv_ctx [OF inv] c by auto
  show ?thesis
  proof (cases ev)
    case (Tick n)
    with st run c show ?thesis by (auto simp: step_def)
  next
    case StartNext
    with st run have len: "nextStart s < length (scCommands (s\<lparr>nextStart := nextStart s + 1\<rparr>))"
      and s': "s' = scCommandStart (nextStart s) (s\<lparr>nextStart := nextStart s + 1\<rparr>)"
      by (auto simp: step_def split: if_splits)
    show ?thesis using c started unfolding s' scCommandStart_fields [OF len] by simp
  next
    case (SetupDone j err)
    with st run have j: "j \<in> set (setups s)" and s': "s' = scCommandStart_cb j err s"
      by (auto simp: step_def split: if_splits)
    from inv_started [OF inv] inv_ctx [OF inv] j obtain cj where cj: "get_ctx s j = Some cj"
      by auto
    have len: "j < length (scCommands s)" using cj by (rule get_ctx_SomeD)
    show ?thesis
    proof (cases err)
      case (Some e)
      then show ?thesis using c unfolding s'
        by (simp add: scCommandStart_cb_def forEachParallel_done_fields)
    next
      case None
      let ?s1 = "set_ctx j (cj\<lparr>setupDone := Some (clock s)\<rparr>) s"
      have c1: "get_ctx ?s1 j = Some (cj\<lparr>setupDone := Some (clock s)\<rparr>)"
        using len by (simp add: get_ctx_set_ctx)
      have s'': "s' = forEachParallel_done j None (scCommandLoop j ?s1)"
        unfolding s' using None cj by (simp add: scCommandStart_cb_def)
      show ?thesis
        using c cj len unfolding s''
        by (auto simp: forEachParallel_done_fields scCommandLoop_fields [OF c1] get_ctx_set_ctx)
    qed
  next
    case (ExecDone j out)
    with st run have j: "j \<in> set (execs s)" by (auto simp: step_def split: if_splits)
    from reach_exec_ctx [OF inv j] obtain cj where cj: "get_ctx s j = Some cj" ..
    then have c0: "get_ctx (s\<lparr>execs := remove1 j (execs s)\<rparr>) j = Some cj" by simp
    have ne: "remove1 j (execs s) \<noteq> execs s @ [i]"
    proof
      assume "remove1 j (execs s) = execs s @ [i]"
      then have "length (remove1 j (execs s)) = length (execs s @ [i])" by simp
      then show False using j by (simp add: length_remove1)
    qed
    show ?thesis
      using st run j c ExecDone ne
      by (cases out) (auto simp: step_def scCommandLoop_cb_fields [OF c0] split: if_splits)
  next
    case Immediate
    with st run obtain j rest where q: "immediates s = j # rest"
      and s': "s' = scCommandLoop j (s\<lparr>immediates := rest\<rparr>)"
      by (auto simp: step_def split: list.splits)
    from runner_inv_unqueue(5) [OF inv q] obtain cj
      where cj: "get_ctx (s\<lparr>immediates := rest\<rparr>) j = Some cj" by auto
    show ?thesis using c cj unfolding s' by (auto simp: scCommandLoop_fields [OF cj])
  next
    case (Timeout h)
    with st run c show ?thesis
      by (auto simp: step_def scWatchdogFire_def get_ctx_def split: option.splits if_splits)
  qed
qed

lemma step_ctx_created:
  assumes st: "step ev s = Some s'" and n: "get_ctx s i = None" and c: "get_ctx s' i = Some c'"
  shows "nstarted c' = 0"
proof -
  from st have run: "proc s = Running" by (auto simp: step_def split: if_splits)
  show ?thesis
  proof (cases ev)
    case (Tick n)
    with st run n c show ?thesis by (auto simp: step_def)
  next
    case StartNext
    with st run have len: "nextStart s < length (scCommands (s\<lparr>nextStart := nextStart s + 1\<rparr>))"
      and s': "s' = scCommandStart (nextStart s) (s\<lparr>nextStart := nextStart s + 1\<rparr>)"
      by (auto simp: step_def split: if_splits)
    show ?thesis using c n unfolding s' scCommandStart_fields [OF len]
      by (auto split: if_splits)
  next
    case (SetupDone j err)
    with st run have s': "s' = scCommandStart_cb j err s"
      by (auto simp: step_def split: if_splits)
    show ?thesis
    proof (cases "get_ctx s j")
      case None
      then show ?thesis using c n unfolding s'
        by (cases err) (auto simp: scCommandStart_cb_def forEachParallel_done_fields)
    next
      case (Some cj)
      have len: "j < length (scCommands s)" using Some by (rule get_ctx_SomeD)
      let ?s1 = "set_ctx j (cj\<lparr>setupDone := Some (clock s)\<rparr>) s"
      have c1: "get_ctx ?s1 j = Some (cj\<lparr>setupDone := Some (clock s)\<rparr>)"
        using len by (simp add: get_ctx_set_ctx)
      show ?thesis using c n Some len unfolding s'
        by (cases err)
           (auto simp: scCommandStart_cb_def forEachParallel_done_fields
              scCommandLoop_fields [OF c1] get_ctx_set_ctx split: if_splits)
    qed
  next
    case (ExecDone j out)
    show ?thesis
    proof (cases "get_ctx s j")
      case None
      with st run c n ExecDone show ?thesis
        by (cases out) (auto simp: step_def scCommandLoop_cb_def split: if_splits)
    next
      case (Some cj)
      then have c0: "get_ctx (s\<lparr>execs := remove1 j (execs s)\<rparr>) j = Some cj" by simp
      with st run c n ExecDone show ?thesis
        by (cases out) (auto simp: step_def scCommandLoop_cb_fields [OF c0] split: if_splits)
    qed
  next
    case Immediate
    with st run obtain j rest where q: "immediates s = j # rest"
      and s': "s' = scCommandLoop j (s\<lparr>immediates := rest\<rparr>)"
      by (auto simp: step_def split: list.splits)
    show ?thesis
    proof (cases "get_ctx (s\<lparr>immediates := rest\<rparr>) j")
      case None
      then show ?thesis using c n unfolding s' by (simp add: scCommandLoop_def)
    next
      case (Some cj)
      then show ?thesis using c n unfolding s'
        by (auto simp: scCommandLoop_fields [OF Some] split: if_splits)
    qed
  next
    case (Timeout h)
    with st run n c show ?thesis
      by (auto simp: step_def scWatchdogFire_def get_ctx_def split: option.splits if_splits)
  qed
qed

lemma run_nstarted_mono:
  assumes "runner_inv s" "run evs s = Some s'" "get_ctx s i = Some c"
  shows "\<exists>c'. get_ctx s' i = Some c' \<and> nstarted c \<le> nstarted c'"
  using assms
proof (induction evs arbitrary: s c)
  case Nil
  then show ?case by simp
next
  case (Cons ev evs)
  from Cons.prems(2) obtain t where t: "step ev s = Some t" and r: "run evs t = Some s'"
    by (auto split: option.splits)
  from step_nstarted [OF Cons.prems(1) t Cons.prems(3)] obtain ct
    where ct: "get_ctx t i = Some ct" and le: "nstarted c \<le> nstarted ct"
    by (auto simp: js_increment_ge split: if_splits)
  from Cons.IH [OF runner_inv_step [OF Cons.prems(1) t] r ct] le show ?case
    by (auto intro: le_trans)
qed

lemma step_nstarted_bound:
  assumes inv: "runner_inv s" and st: "step ev s = Some s'"
    and b: "\<forall>i c. get_ctx s i = Some c \<longrightarrow> nstarted c \<le> 2 ^ 53"
  shows "\<forall>i c. get_ctx s' i = Some c \<longrightarrow> nstarted c \<le> 2 ^ 53"
proof (intro allI impI)
  fix i c' assume c': "get_ctx s' i = Some c'"
  show "nstarted c' \<le> 2 ^ 53"
  proof (cases "get_ctx s i")
    case None
    from step_ctx_created [OF st None c'] show ?thesis by simp
  next
    case (Some c)
    with b have "nstarted c \<le> 2 ^ 53" by blast
    with step_nstarted [OF inv st Some] c' js_increment_bound [of "nstarted c"] show ?thesis
      by (auto split: if_splits)
  qed
qed

lemma run_nstarted_bound:
  assumes "runner_inv s" "run evs s = Some s'"
    and "\<forall>i c. get_ctx s i = Some c \<longrightarrow> nstarted c \<le> 2 ^ 53"
  shows "\<forall>i c. get_ctx s' i = Some c \<longrightarrow> nstarted c \<le> 2 ^ 53"
  using assms
proof (induction evs arbitrary: s)
  case Nil
  then show ?case by simp
next
  case (Cons ev evs)
  from Cons.prems(2) obtain t where t: "step ev s = Some t" and r: "run evs t = Some s'"
    by (auto split: option.splits)
  show ?case
    using Cons.IH [OF runner_inv_step [OF Cons.prems(1) t] r
        step_nstarted_bound [OF Cons.prems(1) t Cons.prems(3)]] .
qed

lemma reach_nstarted_bound:
  assumes "run evs (init cmds) = Some s" "get_ctx s i = Some c"
  shows "nstarted c \<le> 2 ^ 53"
proof -
  have "\<forall>i c. get_ctx (init cmds) i = Some c \<longrightarrow> nstarted c \<le> 2 ^ 53"
    by (simp add: init_def get_ctx_def split: prod.splits)
  from run_nstarted_bound [OF runner_inv_init assms(1) this] assms(2) show ?thesis by blast
qed

lemma distinct_filter_eq_le1: "distinct xs \<Longrightarrow> length (filter (\<lambda>j. j = i) xs) \<le> 1"
  by (induction xs) (auto simp: filter_empty_conv)

lemma distinct_map_filter_le1:
  assumes "distinct (map f xs)"
  shows "length (filter (\<lambda>e. f e = i) xs) \<le> 1"
proof -
  have "length (filter (\<lambda>e. f e = i) xs) = length (filter (\<lambda>j. j = i) (map f xs))"
    by (simp add: filter_map o_def)
  with distinct_filter_eq_le1 [OF assms, of i] show ?thesis by simp
qed

lemma find_handle:
  "distinct (map fst xs) \<Longrightarrow> (h, due, j) \<in> set xs \<Longrightarrow>
   find (\<lambda>e. fst e = h) xs = Some (h, due, j)"
  by (induction xs) (auto simp: rev_image_eqI)

lemma step_Timeout_fire:
  assumes inv: "runner_inv s" and t: "(h, due, j) \<in> set (timeouts s)"
  shows "proc s = Running \<Longrightarrow> (step (Timeout h) s \<noteq> None \<longleftrightarrow> due \<le> clock s)"
    and "step (Timeout h) s = Some s' \<Longrightarrow>
           console s' = console s @
             [''watchdog timer expired for command: '' @ quoted (name (scCommands s ! j)),
              ''aborting (to dump core)'']
           \<and> proc s' = Aborted"
  using find_handle [OF inv_handles_distinct [OF inv] t]
  by (auto simp: step_def scWatchdogFire_def split: if_splits)

section \<open>Finding causes by name\<close>

lemma findCause_None_iff:
  "findCause e nm = None \<longleftrightarrow> (\<forall>c \<in> set (causes e). errname c \<noteq> nm)"
  by (induction e nm rule: findCause.induct) (auto split: option.splits)

lemma findCause_hasCauseNamed: "findCause e nm \<noteq> None \<longleftrightarrow> hasCauseNamed e [nm]"
  by (simp add: findCause_None_iff hasCauseNamed_def)

lemma findCause_eq_None: "findCause e nm = None \<longleftrightarrow> \<not> hasCauseNamed e [nm]"
  by (simp add: findCause_None_iff hasCauseNamed_def)

lemma findCause_SomeD: "findCause e nm = Some x \<Longrightarrow> hasCauseNamed e [nm]"
  using findCause_eq_None [of e nm] by auto

lemma findCauseByName_Some:
  "nm \<noteq> [] \<Longrightarrow> findCauseByName (Some e) nm = Inr (findCause e nm)"
  by (simp add: findCauseByName_def)

lemma hasCauseNamed_Cons:
  "hasCauseNamed e (t # ts) \<longleftrightarrow> hasCauseNamed e [t] \<or> hasCauseNamed e ts"
  by (auto simp: hasCauseNamed_def)

lemma ignoreErrorTypes_loop_eq:
  "[] \<notin> set errtypes \<Longrightarrow>
   ignoreErrorTypes_loop e errtypes = Inr (if hasCauseNamed e errtypes then None else Some e)"
proof (induction errtypes)
  case Nil
  then show ?case by (simp add: hasCauseNamed_def)
next
  case (Cons t ts)
  then have t: "t \<noteq> []" and ts: "[] \<notin> set ts" by auto
  show ?case
  proof (cases "findCause e t")
    case None
    then have "\<not> hasCauseNamed e [t]" using findCause_hasCauseNamed [of e t] by simp
    with None t Cons.IH [OF ts] show ?thesis
      by (simp add: findCauseByName_Some hasCauseNamed_Cons [of e t ts])
  next
    case (Some found)
    then have "hasCauseNamed e [t]" using findCause_hasCauseNamed [of e t] by simp
    with Some t show ?thesis
      by (simp add: findCauseByName_Some hasCauseNamed_Cons [of e t ts])
  qed
qed

lemma ignoring_eq:
  "k \<noteq> [] \<Longrightarrow>
   ignoring [k] err =
     Callback (case err of None \<Rightarrow> None
               | Some e \<Rightarrow> if hasCauseNamed e [k] then None else Some e)"
  by (cases err)
     (simp_all add: ignoring_def returned_def cbIgnoreErrorTypes_def ignoreErrorTypes_def
        ignoreErrorTypes_loop_eq subcallback_def del: ignoreErrorTypes_loop.simps)

lemma rpc_cb_ignoring:
  "k \<noteq> [] \<Longrightarrow>
   rpc_cb client req (ignoring [k]) =
     ([req], case client req of
               RespNever \<Rightarrow> Hangs
             | RespOk \<Rightarrow> Callback None
             | RespError e \<Rightarrow> Callback (if hasCauseNamed e [k] then None else Some e))"
  by (simp add: rpc_cb_def ignoring_eq split: response.splits)

lemma cmdRpcFailFindObjects_eq:
  "cmdRpcFailFindObjects client =
     ([Rpc ''findObjects'' [JStr scTestBucketBogus, JStr ''key=value'']],
      case client (Rpc ''findObjects'' [JStr scTestBucketBogus, JStr ''key=value'']) of
        RespNever \<Rightarrow> Hangs
      | RespOk \<Rightarrow> unexpected_end
      | RespError e \<Rightarrow>
          Callback (if hasCauseNamed e [''BucketNotFoundError''] then None else Some e))"
  using ignoreErrorTypes_loop_eq [of "[''BucketNotFoundError'']"]
  by (simp add: cmdRpcFailFindObjects_def rpc_req_def ignoreErrorTypes_def subcallback_def
        split: response.splits del: ignoreErrorTypes_loop.simps)

lemma cmdRpcReconnectClientFail_cb_eq:
  "cmdRpcReconnectClientFail_cb err =
     Callback (case err of
                 None \<Rightarrow> Some (VError_new ''unexpected success'')
               | Some e \<Rightarrow>
                   if hasCauseNamed e [''NoBackendsError'', ''FastTransportError'',
                                       ''FastProtocolError'']
                   then None else Some (VError_wrap e ''unexpected error''))"
proof (cases err)
  case None
  then show ?thesis by (simp add: cmdRpcReconnectClientFail_cb_def subcallback_def)
next
  case (Some e)
  have h: "hasCauseNamed e [''NoBackendsError'', ''FastTransportError'', ''FastProtocolError'']
           \<longleftrightarrow> hasCauseNamed e [''NoBackendsError''] \<or> hasCauseNamed e [''FastTransportError'']
              \<or> hasCauseNamed e [''FastProtocolError'']"
    by (auto simp: hasCauseNamed_def)
  show ?thesis
    by (auto simp: Some h cmdRpcReconnectClientFail_cb_def subcallback_def findCauseByName_def
          findCause_eq_None split: option.splits dest: findCause_SomeD)
qed

section \<open>Pipelines\<close>

lemma pipeline_last:
  "\<forall>f \<in> set fs. snd (f env) = Callback None \<Longrightarrow>
   snd (pipeline (fs @ [g]) env) = snd (g env)"
  by (induction fs) (auto split: prod.splits outcome.splits option.splits)

lemma pipeline_passes_iff:
  "(snd (pipeline fs env) = Callback None) = (\<forall>f \<in> set fs. snd (f env) = Callback None)"
  by (induction fs) (auto split: prod.splits outcome.splits option.splits)

lemma pipeline_requests:
  "fst (pipeline fs env) =
     concat (map (\<lambda>f. fst (f env))
       (take (Suc (length (takeWhile (\<lambda>f. snd (f env) = Callback None) fs))) fs))"
  by (induction fs) (auto split: prod.splits outcome.splits option.splits)

lemmas sweep_defs = cmdRpcFail_def cmdRpcFail_funcs_def rpc_cb_def rpc_req_def ignoring_def
  returned_def cbIgnoreErrorTypes_def ignoreErrorTypes_def findCauseByName_def
  subcallback_def cmdRpcFailCreateBucket_def cmdRpcFailGetBucket_def
  cmdRpcFailUpdateBucket_def cmdRpcFailDeleteBucket_def cmdRpcFailPutObject_def
  cmdRpcFailBatch_def cmdRpcFailGetObject_def cmdRpcFailDelObject_def
  cmdRpcFailUpdateObjects_def cmdRpcFailReindexObjects_def cmdRpcFailDeleteMany_def
  cmdRpcFailFindObjects_def cmdRpcFailGetTokens_def cmdRpcFailSql_def endsWith_def
  quoted_def

section \<open>Example runs\<close>

lemmas runner_defs = init_def scCommands_registry_def step_def scCommandStart_def
  scCommandStart_cb_def scCommandLoop_def scCommandLoop_cb_def forEachParallel_done_def
  clearTimeout_def scWatchdogFire_def get_ctx_def set_ctx_def Let_def cmdname_def
  scWatchdogLimit_def js_increment_def

text \<open>The first command has been set up and its first iteration is running.\<close>

lemma running_example:
  "run [StartNext, SetupDone 0 None] (init scCommands_registry) \<noteq> None"
  "proc (state_after [StartNext, SetupDone 0 None]) = Running"
  "execs (state_after [StartNext, SetupDone 0 None]) = [0]"
  "timeouts (state_after [StartNext, SetupDone 0 None]) = [(0, 30000, 0)]"
  "immediates (state_after [StartNext, SetupDone 0 None]) = []"
  "get_ctx (state_after [StartNext, SetupDone 0 None]) 0 =
     Some \<lparr>nstarted = 1, lastStarted = Some 0, setupStarted = 0, setupDone = Some 0,
           timer = Some 0\<rparr>"
  "scLog (state_after [StartNext, SetupDone 0 None]) =
     [StartingIteration ''cmdRpcNeverConnected'' 1]"
  "scCommands (state_after [StartNext, SetupDone 0 None]) ! 0 =
     \<lparr>name = ''make RPC requests before ever connected'',
      exec_name = ''cmdRpcNeverConnected'',
      ctx = Some \<lparr>nstarted = 1, lastStarted = Some 0, setupStarted = 0, setupDone = Some 0,
                  timer = Some 0\<rparr>\<rparr>"
  "length (scCommands (state_after [StartNext, SetupDone 0 None])) = 5"
  by (simp_all add: state_after_def runner_defs)

lemma running_example_run:
  "run [StartNext, SetupDone 0 None] (init scCommands_registry) =
     Some (state_after [StartNext, SetupDone 0 None])"
  using running_example(1) by (auto simp: state_after_def simp del: run.simps)

text \<open>Its first iteration has completed and the second one is queued.\<close>

lemma completed_example:
  "run [StartNext, SetupDone 0 None, ExecDone 0 (Callback None)] (init scCommands_registry)
     \<noteq> None"
  "proc (state_after [StartNext, SetupDone 0 None, ExecDone 0 (Callback None)]) = Running"
  "execs (state_after [StartNext, SetupDone 0 None, ExecDone 0 (Callback None)]) = []"
  "timeouts (state_after [StartNext, SetupDone 0 None, ExecDone 0 (Callback None)]) = []"
  "immediates (state_after [StartNext, SetupDone 0 None, ExecDone 0 (Callback None)]) = [0]"
  "get_ctx (state_after [StartNext, SetupDone 0 None, ExecDone 0 (Callback None)]) 0 =
     Some \<lparr>nstarted = 1, lastStarted = Some 0, setupStarted = 0, setupDone = Some 0,
           timer = Some 0\<rparr>"
  by (simp_all add: state_after_def runner_defs)

lemma completed_example_run:
  "run [StartNext, SetupDone 0 None, ExecDone 0 (Callback None)] (init scCommands_registry) =
     Some (state_after [StartNext, SetupDone 0 None, ExecDone 0 (Callback None)])"
  using completed_example(1) by (auto simp: state_after_def simp del: run.simps)

text \<open>Its first iteration has been running for 30000 ms.\<close>

lemma expired_example:
  "run [StartNext, SetupDone 0 None, Tick 30000] (init scCommands_registry) \<noteq> None"
  "proc (state_after [StartNext, SetupDone 0 None, Tick 30000]) = Running"
  "timeouts (state_after [StartNext, SetupDone 0 None, Tick 30000]) = [(0, 30000, 0)]"
  "clock (state_after [StartNext, SetupDone 0 None, Tick 30000]) = 30000"
  "console (state_after [StartNext, SetupDone 0 None, Tick 30000]) = []"
  "name (scCommands (state_after [StartNext, SetupDone 0 None, Tick 30000]) ! 0) =
     ''make RPC requests before ever connected''"
  by (simp_all add: state_after_def runner_defs)

lemma expired_example_run:
  "run [StartNext, SetupDone 0 None, Tick 30000] (init scCommands_registry) =
     Some (state_after [StartNext, SetupDone 0 None, Tick 30000])"
  using expired_example(1) by (auto simp: state_after_def simp del: run.simps)

text \<open>The first three commands are in setup or running; the third runs its first iteration.\<close>

lemma reconnect_example:
  "run [StartNext, StartNext, StartNext, SetupDone 2 None] (init scCommands_registry) \<noteq> None"
  "proc (state_after [StartNext, StartNext, StartNext, SetupDone 2 None]) = Running"
  "execs (state_after [StartNext, StartNext, StartNext, SetupDone 2 None]) = [2]"
  "immediates (state_after [StartNext, StartNext, StartNext, SetupDone 2 None]) = []"
  by (simp_all add: state_after_def runner_defs)

lemma reconnect_example_run:
  "run [StartNext, StartNext, StartNext, SetupDone 2 None] (init scCommands_registry) =
     Some (state_after [StartNext, StartNext, StartNext, SetupDone 2 None])"
  using reconnect_example(1) by (auto simp: state_after_def simp del: run.simps)

text \<open>The first four commands are started; the fourth runs its first iteration.\<close>

lemma sweep_example:
  "run [StartNext, StartNext, StartNext, StartNext, SetupDone 3 None]
     (init scCommands_registry) \<noteq> None"
  "proc (state_after [StartNext, StartNext, StartNext, StartNext, SetupDone 3 None]) = Running"
  "execs (state_after [StartNext, StartNext, StartNext, StartNext, SetupDone 3 None]) = [3]"
  "immediates (state_after [StartNext, StartNext, StartNext, StartNext, SetupDone 3 None]) = []"
  by (simp_all add: state_after_def runner_defs)

lemma sweep_example_run:
  "run [StartNext, StartNext, StartNext, StartNext, SetupDone 3 None]
     (init scCommands_registry) =
     Some (state_after [StartNext, StartNext, StartNext, StartNext, SetupDone 3 None])"
  using sweep_example(1) by (auto simp: state_after_def simp del: run.simps)

text \<open>An exec that ends while it is running is an enabled event.\<close>

lemma step_ExecDone_enabled:
  "proc s = Running \<Longrightarrow> i \<in> set (execs s) \<Longrightarrow> out \<noteq> Hangs \<Longrightarrow>
   step (ExecDone i out) s \<noteq> None"
  by (cases out) (simp_all add: step_def)

section \<open>The stages of the failure sweep\<close>

text \<open>
  The first twelve stages, in the order of \<^verbatim>\<open>funcs\<close>, each with the one request it issues
  (the invalid bucket name for \<^verbatim>\<open>createBucket\<close>, the bogus bucket for the others), the
  one error kind it swallows and what it does when the request succeeds. An error whose
  cause chain holds the kind is swallowed; any other error is reported unchanged.
\<close>

lemma cmdRpcFail_stages:
  "take 12 cmdRpcFail_funcs =
     [cmdRpcFailCreateBucket, cmdRpcFailGetBucket, cmdRpcFailUpdateBucket,
      cmdRpcFailDeleteBucket, cmdRpcFailPutObject, cmdRpcFailBatch,
      cmdRpcFailGetObject, cmdRpcFailDelObject, cmdRpcFailFindObjects,
      cmdRpcFailUpdateObjects, cmdRpcFailReindexObjects, cmdRpcFailDeleteMany]
   \<and> (\<forall>(stage, req, kind, on_success) \<in> set
        [(cmdRpcFailCreateBucket,
            Rpc ''createBucket'' [JStr scTestBucketInvalid, JObj []],
            ''InvalidBucketNameError'', Callback None),
         (cmdRpcFailGetBucket,
            Rpc ''getBucket'' [JStr scTestBucketBogus],
            ''BucketNotFoundError'', Callback None),
         (cmdRpcFailUpdateBucket,
            Rpc ''updateBucket'' [JStr scTestBucketBogus, JObj []],
            ''BucketNotFoundError'', Callback None),
         (cmdRpcFailDeleteBucket,
            Rpc ''deleteBucket'' [JStr scTestBucketBogus],
            ''BucketNotFoundError'', Callback None),
         (cmdRpcFailPutObject,
            Rpc ''putObject'' [JStr scTestBucketBogus, JStr ''key'', JObj []],
            ''BucketNotFoundError'', Callback None),
         (cmdRpcFailBatch,
            Rpc ''batch'' [JArr [JObj [(''bucket'', JStr scTestBucketBogus),
                                       (''operation'', JStr ''update''),
                                       (''fields'', JObj []),
                                       (''filter'', JStr ''x=*'')]]],
            ''BucketNotFoundError'', Callback None),
         (cmdRpcFailGetObject,
            Rpc ''getObject'' [JStr scTestBucketBogus, JStr ''key''],
            ''BucketNotFoundError'', Callback None),
         (cmdRpcFailDelObject,
            Rpc ''delObject'' [JStr scTestBucketBogus, JStr ''key''],
            ''BucketNotFoundError'', Callback None),
         (cmdRpcFailFindObjects,
            Rpc ''findObjects'' [JStr scTestBucketBogus, JStr ''key=value''],
            ''BucketNotFoundError'', unexpected_end),
         (cmdRpcFailUpdateObjects,
            Rpc ''updateObjects'' [JStr scTestBucketBogus, JObj [], JStr ''key=value''],
            ''FieldUpdateError'', Callback None),
         (cmdRpcFailReindexObjects,
            Rpc ''reindexObjects'' [JStr scTestBucketBogus, JNum 3],
            ''BucketNotFoundError'', Callback None),
         (cmdRpcFailDeleteMany,
            Rpc ''deleteMany'' [JStr scTestBucketBogus, JStr ''x=y''],
            ''BucketNotFoundError'', Callback None)].
        stage client =
          ([req], case client req of
                    RespNever \<Rightarrow> Hangs
                  | RespOk \<Rightarrow> on_success
                  | RespError e \<Rightarrow>
                      Callback (if hasCauseNamed e [kind] then None else Some e)))
   \<and> CHR '' '' \<in> set scTestBucketInvalid
   \<and> scTestBucketBogus = ''stress_client_bogus_bucket''"
  by (simp add: cmdRpcFail_funcs_def rpc_cb_ignoring cmdRpcFailFindObjects_eq
        cmdRpcFailCreateBucket_def cmdRpcFailGetBucket_def cmdRpcFailUpdateBucket_def
        cmdRpcFailDeleteBucket_def cmdRpcFailPutObject_def cmdRpcFailBatch_def
        cmdRpcFailGetObject_def cmdRpcFailDelObject_def cmdRpcFailUpdateObjects_def
        cmdRpcFailReindexObjects_def cmdRpcFailDeleteMany_def scTestBucketInvalid_def
        scTestBucketBogus_def)

text \<open>
  The sweep issues the requests of its stages in order up to and including the first
  stage that does not pass, and the process survives the end of the sweep exactly when
  every stage passed.
\<close>

lemma cmdRpcFail_survives_iff:
  assumes "run evs (init cmds) = Some s"
    and "step (ExecDone i (snd (cmdRpcFail client))) s = Some s'"
  shows "fst (cmdRpcFail client) =
       concat (map (\<lambda>f. fst (f client))
         (take (Suc (length (takeWhile (\<lambda>f. snd (f client) = Callback None)
                               cmdRpcFail_funcs)))
            cmdRpcFail_funcs))
   \<and> (proc s' = Running \<longleftrightarrow>
        (\<forall>f \<in> set cmdRpcFail_funcs. snd (f client) = Callback None))
   \<and> (proc s' = Running \<longrightarrow> immediates s' = immediates s @ [i])
   \<and> (proc s' \<noteq> Running \<longrightarrow> immediates s' = immediates s)"
proof -
  note inv = reach_inv [OF assms(1)]
  have c: "fst (cmdRpcFail client) =
       concat (map (\<lambda>f. fst (f client))
         (take (Suc (length (takeWhile (\<lambda>f. snd (f client) = Callback None)
                               cmdRpcFail_funcs)))
            cmdRpcFail_funcs))"
    unfolding cmdRpcFail_def by (rule pipeline_requests)
  have alive: "proc s' = Running \<longleftrightarrow> snd (cmdRpcFail client) = Callback None"
    using step_ExecDone_alive(1) [OF inv assms(2)] .
  have d: "proc s' = Running \<longleftrightarrow>
        (\<forall>f \<in> set cmdRpcFail_funcs. snd (f client) = Callback None)"
    unfolding alive cmdRpcFail_def by (rule pipeline_passes_iff)
  have e: "proc s' = Running \<longrightarrow> immediates s' = immediates s @ [i]"
    using step_ExecDone_alive(2) [OF inv assms(2)] alive by simp
  have f: "proc s' \<noteq> Running \<longrightarrow> immediates s' = immediates s"
    using step_ExecDone_alive(3) [OF inv assms(2)] alive by simp
  from c d e f show ?thesis by (intro conjI)
qed

section \<open>The claims\<close>

text \<open>
  C1 (as amended). For every command with a context, in every reachable state: the field
  \<^verbatim>\<open>timer\<close> is \<^verbatim>\<open>null\<close> exactly as long as no iteration of the command has started
  (\<open>nstarted = 0\<close>); while the process is alive, an iteration is outstanding (its exec has
  not called back) if and only if the handle stored in \<^verbatim>\<open>timer\<close> is an armed watchdog
  of that command; and every armed watchdog of the command is the one stored in
  \<^verbatim>\<open>timer\<close>. On completion \<^verbatim>\<open>clearTimeout\<close> disarms the watchdog; the field keeps the
  disarmed handle until the next iteration overwrites it.
\<close>

theorem timer_tracks_armed_watchdog:
  assumes "run evs (init cmds) = Some s" and "get_ctx s i = Some c"
  shows "(timer c = None \<longleftrightarrow> nstarted c = 0)
       \<and> (proc s = Running \<longrightarrow>
            (i \<in> set (execs s) \<longleftrightarrow>
               (\<exists>h due. timer c = Some h \<and> (h, due, i) \<in> set (timeouts s))))
       \<and> (\<forall>h due. (h, due, i) \<in> set (timeouts s) \<longrightarrow> timer c = Some h \<and> i \<in> set (execs s))"
proof -
  note inv = reach_inv [OF assms(1)]
  have a: "timer c = None \<longleftrightarrow> nstarted c = 0"
    using inv_null [OF inv] assms(2) by blast
  have b: "\<forall>h due. (h, due, i) \<in> set (timeouts s) \<longrightarrow> timer c = Some h \<and> i \<in> set (execs s)"
    using inv_timeout [OF inv] assms(2) by fastforce
  have "proc s = Running \<longrightarrow>
            (i \<in> set (execs s) \<longleftrightarrow>
               (\<exists>h due. timer c = Some h \<and> (h, due, i) \<in> set (timeouts s)))"
    using inv_armed [OF inv] b by blast
  with a b show ?thesis by blast
qed

theorem timer_tracks_armed_watchdog_witness:
  "run [StartNext, SetupDone 0 None] (init scCommands_registry) =
     Some (state_after [StartNext, SetupDone 0 None])
   \<and> get_ctx (state_after [StartNext, SetupDone 0 None]) 0 =
       Some \<lparr>nstarted = 1, lastStarted = Some 0, setupStarted = 0, setupDone = Some 0,
             timer = Some 0\<rparr>
   \<and> 0 \<in> set (execs (state_after [StartNext, SetupDone 0 None]))
   \<and> (0, 30000, 0) \<in> set (timeouts (state_after [StartNext, SetupDone 0 None]))"
  using timer_tracks_armed_watchdog [of "[StartNext, SetupDone 0 None]" scCommands_registry
      "state_after [StartNext, SetupDone 0 None]" 0
      "\<lparr>nstarted = 1, lastStarted = Some 0, setupStarted = 0, setupDone = Some 0,
        timer = Some 0\<rparr>"] running_example
  by (auto simp: state_after_def)

text \<open>
  C1 as stated fails: after the first iteration has completed and before the next one has
  started, the process is alive, no iteration is outstanding and \<^verbatim>\<open>timer\<close> is not
  \<^verbatim>\<open>null\<close>.
\<close>

theorem timer_not_null_between_iterations:
  "run [StartNext, SetupDone 0 None, ExecDone 0 (Callback None)] (init scCommands_registry) \<noteq> None
   \<and> proc (state_after [StartNext, SetupDone 0 None, ExecDone 0 (Callback None)]) = Running
   \<and> map_option timer
       (get_ctx (state_after [StartNext, SetupDone 0 None, ExecDone 0 (Callback None)]) 0) =
       Some (Some 0)
   \<and> 0 \<notin> set (execs (state_after [StartNext, SetupDone 0 None, ExecDone 0 (Callback None)]))"
  by (simp add: completed_example del: run.simps)

text \<open>
  C2. \<^verbatim>\<open>scCommandStart\<close> creates the context with \<open>nstarted = 0\<close>, and a context that
  appears in a step has \<open>nstarted = 0\<close>. The counter of a reachable state is at most
  \<open>2 ^ 53\<close>. While it is below \<open>2 ^ 53\<close>, where a JavaScript number counts exactly,
  \<^verbatim>\<open>scCommandLoop\<close> adds exactly 1 and then calls exec, and in every step the counter of
  an existing context grows by exactly 1 if the step calls the command's exec (starts an
  iteration). A step that does not start an iteration of the command leaves its counter
  unchanged, whatever its value; and over any continuation of a run the counter never
  decreases.
\<close>

theorem nstarted_counts_iteration_starts:
  assumes "run evs (init cmds) = Some s"
  shows "(\<forall>c. get_ctx (scCommandStart i s) i = Some c \<longrightarrow> nstarted c = 0)
       \<and> (\<forall>c. get_ctx s i = Some c \<longrightarrow> nstarted c \<le> 2 ^ 53)
       \<and> (\<forall>c. get_ctx s i = Some c \<and> nstarted c < 2 ^ 53 \<longrightarrow>
            (\<exists>c'. get_ctx (scCommandLoop i s) i = Some c' \<and> nstarted c' = nstarted c + 1
                 \<and> execs (scCommandLoop i s) = execs s @ [i]))
       \<and> (\<forall>ev s' c'. step ev s = Some s' \<and> get_ctx s i = None \<and> get_ctx s' i = Some c' \<longrightarrow>
            nstarted c' = 0)
       \<and> (\<forall>ev s' c. step ev s = Some s' \<and> get_ctx s i = Some c \<and> nstarted c < 2 ^ 53 \<longrightarrow>
            (\<exists>c'. get_ctx s' i = Some c' \<and>
                  nstarted c' = (if execs s' = execs s @ [i] then nstarted c + 1
                                 else nstarted c)))
       \<and> (\<forall>ev s' c. step ev s = Some s' \<and> get_ctx s i = Some c \<and>
              execs s' \<noteq> execs s @ [i] \<longrightarrow>
            (\<exists>c'. get_ctx s' i = Some c' \<and> nstarted c' = nstarted c))
       \<and> (\<forall>evs' s' c. run evs' s = Some s' \<and> get_ctx s i = Some c \<longrightarrow>
            (\<exists>c'. get_ctx s' i = Some c' \<and> nstarted c \<le> nstarted c'))"
proof -
  note inv = reach_inv [OF assms]
  have a: "\<forall>c. get_ctx (scCommandStart i s) i = Some c \<longrightarrow> nstarted c = 0"
  proof (cases "i < length (scCommands s)")
    case True
    then show ?thesis by (simp add: scCommandStart_fields)
  next
    case False
    then show ?thesis by (simp add: scCommandStart_def Let_def get_ctx_set_ctx get_ctx_def)
  qed
  have b0: "\<forall>c. get_ctx s i = Some c \<longrightarrow> nstarted c \<le> 2 ^ 53"
    using reach_nstarted_bound [OF assms] by blast
  have b: "\<forall>c. get_ctx s i = Some c \<and> nstarted c < 2 ^ 53 \<longrightarrow>
            (\<exists>c'. get_ctx (scCommandLoop i s) i = Some c' \<and> nstarted c' = nstarted c + 1
                 \<and> execs (scCommandLoop i s) = execs s @ [i])"
    by (simp add: scCommandLoop_fields js_increment_below)
  have c: "\<forall>ev s' c'. step ev s = Some s' \<and> get_ctx s i = None \<and> get_ctx s' i = Some c' \<longrightarrow>
            nstarted c' = 0"
    using step_ctx_created by blast
  have d: "\<forall>ev s' c. step ev s = Some s' \<and> get_ctx s i = Some c \<and> nstarted c < 2 ^ 53 \<longrightarrow>
            (\<exists>c'. get_ctx s' i = Some c' \<and>
                  nstarted c' = (if execs s' = execs s @ [i] then nstarted c + 1
                                 else nstarted c))"
  proof (intro allI impI)
    fix ev s' c
    assume h: "step ev s = Some s' \<and> get_ctx s i = Some c \<and> nstarted c < 2 ^ 53"
    then have "js_increment (nstarted c) = nstarted c + 1" by (simp add: js_increment_below)
    with step_nstarted [OF inv, of ev s' i c] h
    show "\<exists>c'. get_ctx s' i = Some c' \<and>
                  nstarted c' = (if execs s' = execs s @ [i] then nstarted c + 1
                                 else nstarted c)"
      by (auto split: if_splits)
  qed
  have d': "\<forall>ev s' c. step ev s = Some s' \<and> get_ctx s i = Some c \<and>
              execs s' \<noteq> execs s @ [i] \<longrightarrow>
            (\<exists>c'. get_ctx s' i = Some c' \<and> nstarted c' = nstarted c)"
  proof (intro allI impI)
    fix ev s' c
    assume h: "step ev s = Some s' \<and> get_ctx s i = Some c \<and> execs s' \<noteq> execs s @ [i]"
    with step_nstarted [OF inv, of ev s' i c]
    show "\<exists>c'. get_ctx s' i = Some c' \<and> nstarted c' = nstarted c"
      by (auto split: if_splits)
  qed
  have e: "\<forall>evs' s' c. run evs' s = Some s' \<and> get_ctx s i = Some c \<longrightarrow>
            (\<exists>c'. get_ctx s' i = Some c' \<and> nstarted c \<le> nstarted c')"
    using run_nstarted_mono [OF inv] by blast
  from a b0 b c d d' e show ?thesis by (intro conjI)
qed

theorem nstarted_counts_iteration_starts_witness:
  "run [StartNext, SetupDone 0 None, ExecDone 0 (Callback None)] (init scCommands_registry) =
     Some (state_after [StartNext, SetupDone 0 None, ExecDone 0 (Callback None)])
   \<and> map_option nstarted
       (get_ctx (state_after [StartNext, SetupDone 0 None, ExecDone 0 (Callback None)]) 0) = Some 1
   \<and> (1::nat) < 2 ^ 53
   \<and> map_option nstarted
       (get_ctx (scCommandLoop 0
          (state_after [StartNext, SetupDone 0 None, ExecDone 0 (Callback None)])) 0) = Some 2"
  using nstarted_counts_iteration_starts
     [of "[StartNext, SetupDone 0 None, ExecDone 0 (Callback None)]" scCommands_registry
         "state_after [StartNext, SetupDone 0 None, ExecDone 0 (Callback None)]" 0]
     completed_example completed_example_run
  by (auto simp del: run.simps)

text \<open>
  C3. The watchdog limit is 30000 ms. Every start of an iteration arms a timeout with a
  handle not in use, due 30000 ms after the start; every armed timeout of a reachable
  state is due 30000 ms after the start of its command's current iteration. An armed
  timeout can fire exactly when its due time has come, and when it fires the handler
  writes the name of the command and \<^verbatim>\<open>aborting (to dump core)\<close> to the console and
  aborts the process, which then takes no further event.
\<close>

theorem watchdog_deadline_and_abort:
  assumes "run evs (init cmds) = Some s"
  shows "scWatchdogLimit = 30000
       \<and> (\<forall>c. get_ctx s i = Some c \<longrightarrow>
            timeouts (scCommandLoop i s) = timeouts s @ [(nextHandle s, clock s + 30000, i)]
            \<and> nextHandle s \<notin> fst ` set (timeouts s))
       \<and> (\<forall>h due j. (h, due, j) \<in> set (timeouts s) \<longrightarrow>
            (\<exists>c t. get_ctx s j = Some c \<and> lastStarted c = Some t \<and> due = t + 30000))
       \<and> (\<forall>h due j. proc s = Running \<and> (h, due, j) \<in> set (timeouts s) \<longrightarrow>
            (step (Timeout h) s \<noteq> None \<longleftrightarrow> due \<le> clock s))
       \<and> (\<forall>h due j s'. (h, due, j) \<in> set (timeouts s) \<and> step (Timeout h) s = Some s' \<longrightarrow>
            console s' = console s @
              [''watchdog timer expired for command: '' @ quoted (name (scCommands s ! j)),
               ''aborting (to dump core)'']
            \<and> proc s' = Aborted \<and> (\<forall>ev. step ev s' = None))"
proof -
  note inv = reach_inv [OF assms]
  have fresh: "nextHandle s \<notin> fst ` set (timeouts s)"
  proof
    assume "nextHandle s \<in> fst ` set (timeouts s)"
    then obtain due j where "(nextHandle s, due, j) \<in> set (timeouts s)" by auto
    with inv_timeout [OF inv] obtain c where "get_ctx s j = Some c" "timer c = Some (nextHandle s)"
      by blast
    with inv_fresh [OF inv] show False by blast
  qed
  have a: "\<forall>c. get_ctx s i = Some c \<longrightarrow>
            timeouts (scCommandLoop i s) = timeouts s @ [(nextHandle s, clock s + 30000, i)]
            \<and> nextHandle s \<notin> fst ` set (timeouts s)"
    using fresh by (simp add: scCommandLoop_fields scWatchdogLimit_def)
  have b: "\<forall>h due j. (h, due, j) \<in> set (timeouts s) \<longrightarrow>
            (\<exists>c t. get_ctx s j = Some c \<and> lastStarted c = Some t \<and> due = t + 30000)"
    using inv_timeout [OF inv] unfolding scWatchdogLimit_def by blast
  have c: "\<forall>h due j. proc s = Running \<and> (h, due, j) \<in> set (timeouts s) \<longrightarrow>
            (step (Timeout h) s \<noteq> None \<longleftrightarrow> due \<le> clock s)"
    using step_Timeout_fire(1) [OF inv] by blast
  have d: "\<forall>h due j s'. (h, due, j) \<in> set (timeouts s) \<and> step (Timeout h) s = Some s' \<longrightarrow>
            console s' = console s @
              [''watchdog timer expired for command: '' @ quoted (name (scCommands s ! j)),
               ''aborting (to dump core)'']
            \<and> proc s' = Aborted \<and> (\<forall>ev. step ev s' = None)"
    using step_Timeout_fire(2) [OF inv] by (auto simp: step_dead)
  have "scWatchdogLimit = 30000" by (simp add: scWatchdogLimit_def)
  with a b c d show ?thesis by (intro conjI)
qed

theorem watchdog_deadline_and_abort_witness:
  "run [StartNext, SetupDone 0 None, Tick 30000] (init scCommands_registry) =
     Some (state_after [StartNext, SetupDone 0 None, Tick 30000])
   \<and> (0, 30000, 0) \<in> set (timeouts (state_after [StartNext, SetupDone 0 None, Tick 30000]))
   \<and> step (Timeout 0) (state_after [StartNext, SetupDone 0 None, Tick 30000]) \<noteq> None
   \<and> proc (the (step (Timeout 0) (state_after [StartNext, SetupDone 0 None, Tick 30000]))) = Aborted
   \<and> console (the (step (Timeout 0) (state_after [StartNext, SetupDone 0 None, Tick 30000]))) =
       [''watchdog timer expired for command: '' @
          quoted ''make RPC requests before ever connected'',
        ''aborting (to dump core)'']"
proof -
  let ?s = "state_after [StartNext, SetupDone 0 None, Tick 30000]"
  have r: "run [StartNext, SetupDone 0 None, Tick 30000] (init scCommands_registry) = Some ?s"
    using expired_example(1) by (auto simp: state_after_def simp del: run.simps)
  note w = watchdog_deadline_and_abort [OF r, of 0]
  have t: "(0, 30000, 0) \<in> set (timeouts ?s)" by (simp add: expired_example)
  from w have w4: "\<forall>h due j. proc ?s = Running \<and> (h, due, j) \<in> set (timeouts ?s) \<longrightarrow>
            (step (Timeout h) ?s \<noteq> None \<longleftrightarrow> due \<le> clock ?s)"
    and w5: "\<forall>h due j s'. (h, due, j) \<in> set (timeouts ?s) \<and> step (Timeout h) ?s = Some s' \<longrightarrow>
            console s' = console ?s @
              [''watchdog timer expired for command: '' @ quoted (name (scCommands ?s ! j)),
               ''aborting (to dump core)'']
            \<and> proc s' = Aborted \<and> (\<forall>ev. step ev s' = None)"
    by blast+
  have "step (Timeout 0) ?s \<noteq> None \<longleftrightarrow> (30000::nat) \<le> clock ?s"
    using w4 t expired_example(2) by blast
  then have e: "step (Timeout 0) ?s \<noteq> None" by (simp add: expired_example(4))
  then obtain s' where s': "step (Timeout 0) ?s = Some s'" by auto
  with w5 t have "console s' = console ?s @
              [''watchdog timer expired for command: '' @ quoted (name (scCommands ?s ! 0)),
               ''aborting (to dump core)''] \<and> proc s' = Aborted"
    by blast
  with r t e s' show ?thesis by (simp add: expired_example del: run.simps)
qed

text \<open>
  C4. In every reachable state a command has at most one armed watchdog and is at most
  once running or queued. A step that starts an iteration of a command (calls its exec)
  finds no exec of that command running and no watchdog of that command armed. When exec
  calls back without an error, the step disarms the watchdog and appends the command to
  the \<^verbatim>\<open>setImmediate\<close> queue without touching any context or calling exec; the
  iteration starts when the event loop later runs the head of that queue.
\<close>

theorem one_watchdog_and_serial_iterations:
  assumes "run evs (init cmds) = Some s"
  shows "length (filter (\<lambda>e. snd (snd e) = i) (timeouts s)) \<le> 1
       \<and> length (filter (\<lambda>j. j = i) (execs s @ immediates s)) \<le> 1
       \<and> (\<forall>ev s'. step ev s = Some s' \<and> execs s' = execs s @ [i] \<longrightarrow>
            i \<notin> set (execs s) \<and> (\<forall>h due. (h, due, i) \<notin> set (timeouts s)))
       \<and> (\<forall>s'. step (ExecDone i (Callback None)) s = Some s' \<longrightarrow>
            immediates s' = immediates s @ [i] \<and> i \<notin> set (execs s')
            \<and> (\<forall>h due. (h, due, i) \<notin> set (timeouts s')) \<and> get_ctx s' = get_ctx s)
       \<and> (\<forall>s'. step Immediate s = Some s' \<longrightarrow>
            immediates s = hd (immediates s) # immediates s'
            \<and> execs s' = execs s @ [hd (immediates s)])"
proof -
  note inv = reach_inv [OF assms]
  have a: "length (filter (\<lambda>e. snd (snd e) = i) (timeouts s)) \<le> 1"
    using inv_tdistinct [OF inv] by (rule distinct_map_filter_le1)
  have b: "length (filter (\<lambda>j. j = i) (execs s @ immediates s)) \<le> 1"
    using inv_distinct [OF inv] by (intro distinct_filter_eq_le1) auto
  have c: "\<forall>ev s'. step ev s = Some s' \<and> execs s' = execs s @ [i] \<longrightarrow>
            i \<notin> set (execs s) \<and> (\<forall>h due. (h, due, i) \<notin> set (timeouts s))"
  proof (intro allI impI)
    fix ev s' assume h: "step ev s = Some s' \<and> execs s' = execs s @ [i]"
    then have "runner_inv s'" using runner_inv_step [OF inv] by blast
    from inv_distinct [OF this] h have n: "i \<notin> set (execs s)" by auto
    with inv_timeout [OF inv] show "i \<notin> set (execs s) \<and> (\<forall>h due. (h, due, i) \<notin> set (timeouts s))"
      by blast
  qed
  have d: "\<forall>s'. step (ExecDone i (Callback None)) s = Some s' \<longrightarrow>
            immediates s' = immediates s @ [i] \<and> i \<notin> set (execs s')
            \<and> (\<forall>h due. (h, due, i) \<notin> set (timeouts s')) \<and> get_ctx s' = get_ctx s"
  proof (intro allI impI)
    fix s' assume st: "step (ExecDone i (Callback None)) s = Some s'"
    then have e: "i \<in> set (execs s)" by (auto simp: step_def split: if_splits)
    from reach_exec_ctx [OF inv e] obtain c where c: "get_ctx s i = Some c" ..
    then have c0: "get_ctx (s\<lparr>execs := remove1 i (execs s)\<rparr>) i = Some c" by simp
    note s' = step_ExecDone_Callback(1) [OF st c]
    have inv': "runner_inv s'" using runner_inv_step [OF inv st] .
    have i1: "immediates s' = immediates s @ [i]"
      using step_ExecDone_alive(2) [OF inv st] by simp
    have i2: "i \<notin> set (execs s')"
      using inv_distinct [OF inv'] i1 by auto
    have i3: "\<forall>h due. (h, due, i) \<notin> set (timeouts s')"
      using inv_timeout [OF inv'] i2 by blast
    have i4: "get_ctx s' = get_ctx s"
      unfolding s' by (simp add: scCommandLoop_cb_fields [OF c0])
    from i1 i2 i3 i4 show "immediates s' = immediates s @ [i] \<and> i \<notin> set (execs s')
            \<and> (\<forall>h due. (h, due, i) \<notin> set (timeouts s')) \<and> get_ctx s' = get_ctx s"
      by (intro conjI)
  qed
  have e: "\<forall>s'. step Immediate s = Some s' \<longrightarrow>
            immediates s = hd (immediates s) # immediates s'
            \<and> execs s' = execs s @ [hd (immediates s)]"
  proof (intro allI impI)
    fix s' assume st: "step Immediate s = Some s'"
    then obtain j rest where q: "immediates s = j # rest"
      and s': "s' = scCommandLoop j (s\<lparr>immediates := rest\<rparr>)"
      by (auto simp: step_def split: list.splits if_splits)
    from runner_inv_unqueue(5) [OF inv q] obtain cj
      where cj: "get_ctx (s\<lparr>immediates := rest\<rparr>) j = Some cj" by auto
    show "immediates s = hd (immediates s) # immediates s'
            \<and> execs s' = execs s @ [hd (immediates s)]"
      unfolding s' using q by (simp add: scCommandLoop_fields [OF cj])
  qed
  from a b c d e show ?thesis by (intro conjI)
qed

theorem one_watchdog_and_serial_iterations_witness:
  "run [StartNext, SetupDone 0 None] (init scCommands_registry) =
     Some (state_after [StartNext, SetupDone 0 None])
   \<and> step (ExecDone 0 (Callback None)) (state_after [StartNext, SetupDone 0 None]) \<noteq> None
   \<and> immediates (the (step (ExecDone 0 (Callback None))
        (state_after [StartNext, SetupDone 0 None]))) = [0]
   \<and> timeouts (the (step (ExecDone 0 (Callback None))
        (state_after [StartNext, SetupDone 0 None]))) = []"
proof -
  let ?s = "state_after [StartNext, SetupDone 0 None]"
  have r: "run [StartNext, SetupDone 0 None] (init scCommands_registry) = Some ?s"
    using running_example(1) by (auto simp: state_after_def simp del: run.simps)
  note w = one_watchdog_and_serial_iterations [OF r, of 0]
  have e: "step (ExecDone 0 (Callback None)) ?s \<noteq> None"
    by (simp add: step_def running_example)
  then obtain s' where s': "step (ExecDone 0 (Callback None)) ?s = Some s'" by auto
  with w have i: "immediates s' = immediates ?s @ [0]" by blast
  have t: "timeouts s' = []"
    using s' by (auto simp: step_def running_example scCommandLoop_cb_def clearTimeout_def split: if_splits)
  from r e s' i t show ?thesis by (simp add: running_example del: run.simps)
qed

text \<open>
  C5. If exec calls back with an error, the callback disarms the watchdog, wraps the error
  in a VError whose message names the command and whose cause is the error, logs it at
  fatal level on the command's logger and throws it: the process is dead from then on
  (no event is taken, no run continues), and nothing was added to the \<^verbatim>\<open>setImmediate\<close>
  queue, so the next iteration is never scheduled.
\<close>

theorem exec_error_is_fatal:
  assumes "run evs (init cmds) = Some s"
    and "step (ExecDone i (Callback (Some e))) s = Some s'"
  shows "proc s' = Uncaught (Thrown (VError_wrap e
                     (''exec command '' @ quoted (name (scCommands s ! i)))))
       \<and> scLog s' = scLog s @
            [FatalError (cmdname (scCommands s ! i))
               (VError_wrap e (''exec command '' @ quoted (name (scCommands s ! i))))]
       \<and> cause (VError_wrap e (''exec command '' @ quoted (name (scCommands s ! i)))) = Some e
       \<and> immediates s' = immediates s
       \<and> i \<notin> set (execs s') \<and> (\<forall>h due. (h, due, i) \<notin> set (timeouts s'))
       \<and> (\<forall>ev. step ev s' = None)
       \<and> (\<forall>evs'. evs' \<noteq> [] \<longrightarrow> run evs' s' = None)"
proof -
  note inv = reach_inv [OF assms(1)]
  let ?e = "VError_wrap e (''exec command '' @ quoted (name (scCommands s ! i)))"
  from assms(2) have ex: "i \<in> set (execs s)" by (auto simp: step_def split: if_splits)
  from reach_exec_ctx [OF inv ex] obtain c where c: "get_ctx s i = Some c" ..
  then have c0: "get_ctx (s\<lparr>execs := remove1 i (execs s)\<rparr>) i = Some c" by simp
  note s' = step_ExecDone_Callback(1) [OF assms(2) c]
  note f = scCommandLoop_cb_fields [OF c0, of "Some e"]
  have inv': "runner_inv s'" using runner_inv_step [OF inv assms(2)] .
  have p: "proc s' = Uncaught (Thrown ?e)" unfolding s' by (simp add: f)
  have l: "scLog s' = scLog s @ [FatalError (cmdname (scCommands s ! i)) ?e]"
    unfolding s' using c0
    by (simp add: scCommandLoop_cb_def clearTimeout_def Let_def split: option.splits)
  have im: "immediates s' = immediates s" unfolding s' by (simp add: f)
  have "distinct (execs s)" using inv_distinct [OF inv] by simp
  then have x: "i \<notin> set (execs s')" unfolding s' by (simp add: f)
  have t: "\<forall>h due. (h, due, i) \<notin> set (timeouts s')"
    using inv_timeout [OF inv'] x by blast
  have d: "\<forall>ev. step ev s' = None" using p by (simp add: step_dead)
  have r: "\<forall>evs'. evs' \<noteq> [] \<longrightarrow> run evs' s' = None" using p by (simp add: run_dead)
  have ca: "cause ?e = Some e" by (simp add: VError_wrap_def)
  from p l ca im x t d r show ?thesis by (intro conjI)
qed

theorem exec_error_is_fatal_witness:
  "run [StartNext, SetupDone 0 None] (init scCommands_registry) =
     Some (state_after [StartNext, SetupDone 0 None])
   \<and> step (ExecDone 0 (Callback (Some (Error_new ''boom''))))
        (state_after [StartNext, SetupDone 0 None]) \<noteq> None
   \<and> proc (the (step (ExecDone 0 (Callback (Some (Error_new ''boom''))))
        (state_after [StartNext, SetupDone 0 None]))) =
       Uncaught (Thrown (VError_wrap (Error_new ''boom'')
         (''exec command '' @ quoted ''make RPC requests before ever connected'')))
   \<and> immediates (the (step (ExecDone 0 (Callback (Some (Error_new ''boom''))))
        (state_after [StartNext, SetupDone 0 None]))) = []"
proof -
  let ?s = "state_after [StartNext, SetupDone 0 None]"
  let ?ev = "ExecDone 0 (Callback (Some (Error_new ''boom'')))"
  have e: "step ?ev ?s \<noteq> None"
    by (rule step_ExecDone_enabled) (simp_all add: running_example)
  then obtain s' where s': "step ?ev ?s = Some s'" by auto
  from exec_error_is_fatal [OF running_example_run s']
  have "proc s' = Uncaught (Thrown (VError_wrap (Error_new ''boom'')
                     (''exec command '' @ quoted (name (scCommands ?s ! 0)))))"
    and "immediates s' = immediates ?s"
    by blast+
  with e s' running_example_run show ?thesis
    by (simp add: running_example del: run.simps)
qed

text \<open>
  C6. The exec routine of the never-connected command issues exactly one request,
  \<^verbatim>\<open>listBuckets\<close>. When the routine ends while its iteration is running, the process
  stays alive (and the next iteration is queued) if and only if the request failed with
  an error whose cause chain contains a \<^verbatim>\<open>NoBackendsError\<close>. Any other error is handed
  to the runner's callback unchanged, which is fatal. A request that succeeds makes
  \<^verbatim>\<open>VError.findCauseByName\<close> throw on the \<^verbatim>\<open>null\<close> error, which is fatal too: no
  answer other than a \<^verbatim>\<open>NoBackendsError\<close> lets the iteration pass.
\<close>

theorem cmdRpcNeverConnected_passes_iff_NoBackendsError:
  assumes "run evs (init cmds) = Some s"
    and "step (ExecDone i (snd (cmdRpcNeverConnected client))) s = Some s'"
  shows "fst (cmdRpcNeverConnected client) = [Rpc ''listBuckets'' []]
       \<and> (proc s' = Running \<longleftrightarrow>
            (\<exists>e. client (Rpc ''listBuckets'' []) = RespError e \<and>
                 hasCauseNamed e [''NoBackendsError'']))
       \<and> (proc s' = Running \<longrightarrow> immediates s' = immediates s @ [i])
       \<and> (\<forall>e. client (Rpc ''listBuckets'' []) = RespError e \<and>
                \<not> hasCauseNamed e [''NoBackendsError''] \<longrightarrow>
              snd (cmdRpcNeverConnected client) = Callback (Some e))
       \<and> (client (Rpc ''listBuckets'' []) = RespOk \<longrightarrow>
              snd (cmdRpcNeverConnected client) =
                Throws (AssertionError ''err must be an Error''))"
proof -
  note inv = reach_inv [OF assms(1)]
  let ?req = "Rpc ''listBuckets'' []"
  have out: "snd (cmdRpcNeverConnected client) =
      (case client ?req of
         RespNever \<Rightarrow> Hangs
       | RespOk \<Rightarrow> Throws (AssertionError ''err must be an Error'')
       | RespError e \<Rightarrow>
           if hasCauseNamed e [''NoBackendsError''] then Callback None else Callback (Some e))"
    by (auto simp: cmdRpcNeverConnected_def rpc_cb_def findCauseByName_def findCause_eq_None
          split: response.splits option.splits dest: findCause_SomeD)
  have alive: "proc s' = Running \<longleftrightarrow> snd (cmdRpcNeverConnected client) = Callback None"
    using step_ExecDone_alive(1) [OF inv assms(2)] .
  have "proc s' = Running \<longleftrightarrow>
            (\<exists>e. client ?req = RespError e \<and> hasCauseNamed e [''NoBackendsError''])"
    unfolding alive out by (auto split: response.splits)
  moreover have "proc s' = Running \<longrightarrow> immediates s' = immediates s @ [i]"
    using step_ExecDone_alive(2) [OF inv assms(2)] alive by simp
  moreover have "fst (cmdRpcNeverConnected client) = [?req]"
    by (simp add: cmdRpcNeverConnected_def rpc_cb_def)
  ultimately show ?thesis using out by simp
qed

theorem cmdRpcNeverConnected_passes_iff_NoBackendsError_witness:
  "run [StartNext, SetupDone 0 None] (init scCommands_registry) =
     Some (state_after [StartNext, SetupDone 0 None])
   \<and> step (ExecDone 0 (snd (cmdRpcNeverConnected unreachable_client)))
        (state_after [StartNext, SetupDone 0 None]) \<noteq> None
   \<and> proc (the (step (ExecDone 0 (snd (cmdRpcNeverConnected unreachable_client)))
        (state_after [StartNext, SetupDone 0 None]))) = Running"
proof -
  let ?s = "state_after [StartNext, SetupDone 0 None]"
  let ?ev = "ExecDone 0 (snd (cmdRpcNeverConnected unreachable_client))"
  have o: "snd (cmdRpcNeverConnected unreachable_client) = Callback None"
    by (simp add: cmdRpcNeverConnected_def rpc_cb_def unreachable_client_def
          findCauseByName_def VError_wrap_def)
  have e: "step ?ev ?s \<noteq> None"
    by (rule step_ExecDone_enabled) (simp_all add: running_example o)
  then obtain s' where s': "step ?ev ?s = Some s'" by auto
  have "hasCauseNamed (VError_wrap (JSError ''NoBackendsError'' ''no backends'' None)
          ''moray client'') [''NoBackendsError'']"
    by (simp add: hasCauseNamed_def VError_wrap_def)
  with cmdRpcNeverConnected_passes_iff_NoBackendsError [OF running_example_run s']
  have "proc s' = Running" by (simp add: unreachable_client_def)
  with e s' running_example_run show ?thesis by (simp del: run.simps)
qed

text \<open>
  C7. The stage that makes the final request of the reconnect cycle passes if and only if
  the ping fails with an error whose cause chain contains a \<^verbatim>\<open>NoBackendsError\<close>, a
  \<^verbatim>\<open>FastTransportError\<close> or a \<^verbatim>\<open>FastProtocolError\<close>; any other error is wrapped as
  \<^verbatim>\<open>unexpected error\<close>, and a ping that succeeds becomes the error
  \<^verbatim>\<open>unexpected success\<close>. When the three earlier stages have passed, the stage's result
  is the result of the exec routine, so the process survives the end of the routine if
  and only if the final ping failed with a whitelisted error; otherwise the process is
  dead and no iteration was queued.
\<close>

theorem cmdRpcReconnectClientFail_whitelist:
  assumes "run evs (init cmds) = Some s"
    and "createServer env = CalledBack"
    and "snd (cmdRpcReconnectClientLoop env) = Callback None"
    and "cleanupServer env = CalledBack"
    and "step (ExecDone i (snd (cmdRpcReconnect env))) s = Some s'"
  shows "snd (cmdRpcReconnectClientFail env) =
           (case final_ping env of
              RespError e \<Rightarrow>
                if hasCauseNamed e [''NoBackendsError'', ''FastTransportError'',
                                    ''FastProtocolError'']
                then Callback None
                else Callback (Some (VError_wrap e ''unexpected error''))
            | RespOk \<Rightarrow> Callback (Some (VError_new ''unexpected success''))
            | RespNever \<Rightarrow> Hangs)
       \<and> snd (cmdRpcReconnect env) = snd (cmdRpcReconnectClientFail env)
       \<and> (proc s' = Running \<longleftrightarrow>
            (\<exists>e. final_ping env = RespError e \<and>
                 hasCauseNamed e [''NoBackendsError'', ''FastTransportError'',
                                  ''FastProtocolError'']))
       \<and> (proc s' \<noteq> Running \<longrightarrow> immediates s' = immediates s)"
proof -
  note inv = reach_inv [OF assms(1)]
  note st = assms(5)
  have stage: "snd (cmdRpcReconnectClientFail env) =
           (case final_ping env of
              RespError e \<Rightarrow>
                if hasCauseNamed e [''NoBackendsError'', ''FastTransportError'',
                                    ''FastProtocolError'']
                then Callback None
                else Callback (Some (VError_wrap e ''unexpected error''))
            | RespOk \<Rightarrow> Callback (Some (VError_new ''unexpected success''))
            | RespNever \<Rightarrow> Hangs)"
    by (simp add: cmdRpcReconnectClientFail_def rpc_cb_def cmdRpcReconnectClientFail_cb_eq
          split: response.splits)
  have pipe: "snd (cmdRpcReconnect env) = snd (cmdRpcReconnectClientFail env)"
    using pipeline_last [of "[cmdRpcReconnectSetupServer, cmdRpcReconnectClientLoop,
               cmdRpcReconnectShutdown]" env cmdRpcReconnectClientFail] assms(2-4)
    by (simp add: cmdRpcReconnect_def cmdRpcReconnectSetupServer_def
          cmdRpcReconnectShutdown_def helper_outcome_def)
  have alive: "proc s' = Running \<longleftrightarrow> snd (cmdRpcReconnect env) = Callback None"
    using step_ExecDone_alive(1) [OF inv st] .
  have "proc s' = Running \<longleftrightarrow>
            (\<exists>e. final_ping env = RespError e \<and>
                 hasCauseNamed e [''NoBackendsError'', ''FastTransportError'',
                                  ''FastProtocolError''])"
    unfolding alive pipe stage by (auto split: response.splits)
  moreover have "proc s' \<noteq> Running \<longrightarrow> immediates s' = immediates s"
    using step_ExecDone_alive(3) [OF inv st] alive by simp
  ultimately show ?thesis using stage pipe by simp
qed

theorem cmdRpcReconnectClientFail_whitelist_witness:
  "run [StartNext, StartNext, StartNext, SetupDone 2 None] (init scCommands_registry) =
     Some (state_after [StartNext, StartNext, StartNext, SetupDone 2 None])
   \<and> createServer reconnect_cycle = CalledBack
   \<and> snd (cmdRpcReconnectClientLoop reconnect_cycle) = Callback None
   \<and> cleanupServer reconnect_cycle = CalledBack
   \<and> step (ExecDone 2 (snd (cmdRpcReconnect reconnect_cycle)))
        (state_after [StartNext, StartNext, StartNext, SetupDone 2 None]) \<noteq> None
   \<and> snd (cmdRpcReconnect reconnect_cycle) = Callback None
   \<and> proc (the (step (ExecDone 2 (snd (cmdRpcReconnect reconnect_cycle)))
        (state_after [StartNext, StartNext, StartNext, SetupDone 2 None]))) = Running"
proof -
  let ?s = "state_after [StartNext, StartNext, StartNext, SetupDone 2 None]"
  let ?ev = "ExecDone 2 (snd (cmdRpcReconnect reconnect_cycle))"
  have a: "createServer reconnect_cycle = CalledBack"
    and b: "snd (cmdRpcReconnectClientLoop reconnect_cycle) = Callback None"
    and c: "cleanupServer reconnect_cycle = CalledBack"
    by (simp_all add: reconnect_cycle_def cmdRpcReconnectClientLoop_def)
  have o: "snd (cmdRpcReconnect reconnect_cycle) = Callback None"
    by (simp add: cmdRpcReconnect_def cmdRpcReconnectSetupServer_def
          cmdRpcReconnectClientLoop_def cmdRpcReconnectShutdown_def
          cmdRpcReconnectClientFail_def cmdRpcReconnectClientFail_cb_def rpc_cb_def
          helper_outcome_def reconnect_cycle_def findCauseByName_def subcallback_def)
  have e: "step ?ev ?s \<noteq> None"
    by (rule step_ExecDone_enabled) (simp_all add: reconnect_example o)
  then obtain s' where s': "step ?ev ?s = Some s'" by auto
  have "proc s' = Running \<longleftrightarrow> snd (cmdRpcReconnect reconnect_cycle) = Callback None"
    using cmdRpcReconnectClientFail_whitelist [OF reconnect_example_run a b c s']
    by (auto split: response.splits if_splits)
  with o have "proc s' = Running" by simp
  with a b c e o s' reconnect_example_run show ?thesis by (simp del: run.simps)
qed

text \<open>
  C8. The sweep swallows the one whitelisted kind of each stage and fails on any other
  error, but it does not fail on a success. With a server on which \<^verbatim>\<open>getBucket\<close> of the
  bogus bucket succeeds (and every other call fails as its stage expects), the stage
  passes, all fourteen requests are issued, the sweep ends without an error, the process
  stays alive and the next iteration is queued. The sibling stages of the same sweep do
  reject a success: \<^verbatim>\<open>findObjects\<close> and \<^verbatim>\<open>sql\<close> throw on \<^verbatim>\<open>'end'\<close>, and
  \<^verbatim>\<open>getTokens\<close> asserts that there is an error.
\<close>

theorem cmdRpcFail_accepts_success:
  "lenient_server (Rpc ''getBucket'' [JStr scTestBucketBogus]) = RespOk
   \<and> cmdRpcFailGetBucket lenient_server =
       ([Rpc ''getBucket'' [JStr ''stress_client_bogus_bucket'']], Callback None)
   \<and> map rpc_method (fst (cmdRpcFail lenient_server)) =
       [''createBucket'', ''getBucket'', ''updateBucket'', ''deleteBucket'', ''putObject'',
        ''batch'', ''getObject'', ''delObject'', ''findObjects'', ''updateObjects'',
        ''reindexObjects'', ''deleteMany'', ''getTokens'', ''sql'']
   \<and> snd (cmdRpcFail lenient_server) = Callback None
   \<and> step (ExecDone 3 (snd (cmdRpcFail lenient_server)))
        (state_after [StartNext, StartNext, StartNext, StartNext, SetupDone 3 None]) \<noteq> None
   \<and> proc (the (step (ExecDone 3 (snd (cmdRpcFail lenient_server)))
        (state_after [StartNext, StartNext, StartNext, StartNext, SetupDone 3 None]))) = Running
   \<and> immediates (the (step (ExecDone 3 (snd (cmdRpcFail lenient_server)))
        (state_after [StartNext, StartNext, StartNext, StartNext, SetupDone 3 None]))) = [3]
   \<and> snd (cmdRpcFailFindObjects succeeding_server) = unexpected_end
   \<and> snd (cmdRpcFailGetTokens succeeding_server) = Throws (AssertionError ''err'')
   \<and> snd (cmdRpcFailSql succeeding_server) = unexpected_end"
proof -
  let ?s = "state_after [StartNext, StartNext, StartNext, StartNext, SetupDone 3 None]"
  let ?ev = "ExecDone 3 (snd (cmdRpcFail lenient_server))"
  have l: "lenient_server (Rpc ''getBucket'' [JStr scTestBucketBogus]) = RespOk"
    by (simp add: lenient_server_def)
  have g: "cmdRpcFailGetBucket lenient_server =
       ([Rpc ''getBucket'' [JStr ''stress_client_bogus_bucket'']], Callback None)"
    by (simp add: sweep_defs lenient_server_def scTestBucketBogus_def)
  have r: "map rpc_method (fst (cmdRpcFail lenient_server)) =
       [''createBucket'', ''getBucket'', ''updateBucket'', ''deleteBucket'', ''putObject'',
        ''batch'', ''getObject'', ''delObject'', ''findObjects'', ''updateObjects'',
        ''reindexObjects'', ''deleteMany'', ''getTokens'', ''sql'']"
    by (simp add: sweep_defs lenient_server_def failing_server_def)
  have o: "snd (cmdRpcFail lenient_server) = Callback None"
    by (simp add: sweep_defs lenient_server_def failing_server_def)
  have e: "step ?ev ?s \<noteq> None"
    by (rule step_ExecDone_enabled) (simp_all add: sweep_example o)
  then obtain s' where s': "step ?ev ?s = Some s'" by auto
  note inv = runner_inv_reachable [OF sweep_example_run]
  have p: "proc s' = Running" "immediates s' = [3]"
    using step_ExecDone_alive(1,2) [OF inv s'] o by (simp_all add: sweep_example)
  have sib: "snd (cmdRpcFailFindObjects succeeding_server) = unexpected_end"
    "snd (cmdRpcFailGetTokens succeeding_server) = Throws (AssertionError ''err'')"
    "snd (cmdRpcFailSql succeeding_server) = unexpected_end"
    by (simp_all add: cmdRpcFailFindObjects_def cmdRpcFailGetTokens_def cmdRpcFailSql_def
          rpc_cb_def rpc_req_def succeeding_server_def)
  from l g r o e s' p sib show ?thesis by simp
qed

text \<open>
  C9 (as amended). The introspection surface has three callbacks. Listing the types
  returns the one-element list \<^verbatim>\<open>['cmd']\<close>. Listing the objects of type \<^verbatim>\<open>cmd\<close>
  returns the indices of the registered commands. Getting the object of type \<^verbatim>\<open>cmd\<close> at
  a valid index whose command has a context returns an object with exactly the four
  fields \<^verbatim>\<open>label\<close>, \<^verbatim>\<open>funcname\<close>, \<^verbatim>\<open>nstarted\<close> and \<^verbatim>\<open>lastStarted\<close>, holding the
  command's name, the name of its exec function, its context's \<open>nstarted\<close> and its
  context's \<open>lastStarted\<close>. The callbacks are functions of the state that return a value:
  they change neither the registry nor a context.
\<close>

theorem introspection_callbacks:
  "knListTypes = [''cmd'']
   \<and> knListObjects ''cmd'' s = Inr [0..<length (scCommands s)]
   \<and> (which < length (scCommands s) \<and> ctx (scCommands s ! which) = Some c \<longrightarrow>
        knGetObject ''cmd'' which s =
          Inr (JObj [(''label'', JStr (name (scCommands s ! which))),
                     (''funcname'', JStr (exec_name (scCommands s ! which))),
                     (''nstarted'', JNum (nstarted c)),
                     (''lastStarted'',
                        case lastStarted c of None \<Rightarrow> JNull | Some t \<Rightarrow> JDate t)]))"
  by (simp add: knListTypes_def knListObjects_def knGetObject_def Let_def)

theorem introspection_callbacks_witness:
  "0 < length (scCommands (state_after [StartNext, SetupDone 0 None]))
   \<and> ctx (scCommands (state_after [StartNext, SetupDone 0 None]) ! 0) =
       Some \<lparr>nstarted = 1, lastStarted = Some 0, setupStarted = 0, setupDone = Some 0,
             timer = Some 0\<rparr>
   \<and> knListObjects ''cmd'' (state_after [StartNext, SetupDone 0 None]) = Inr [0, 1, 2, 3, 4]
   \<and> knGetObject ''cmd'' 0 (state_after [StartNext, SetupDone 0 None]) =
       Inr (JObj [(''label'', JStr ''make RPC requests before ever connected''),
                  (''funcname'', JStr ''cmdRpcNeverConnected''),
                  (''nstarted'', JNum 1),
                  (''lastStarted'', JDate 0)])"
  using introspection_callbacks [of "state_after [StartNext, SetupDone 0 None]" 0
      "\<lparr>nstarted = 1, lastStarted = Some 0, setupStarted = 0, setupDone = Some 0,
        timer = Some 0\<rparr>"]
  by (simp add: running_example upt_rec)

text \<open>
  C9 as stated fails: the type is not called \<^verbatim>\<open>command\<close>, and the snapshot's fields are
  not called \<^verbatim>\<open>functionName\<close>, \<^verbatim>\<open>iterationsStarted\<close> and \<^verbatim>\<open>lastStartedTimestamp\<close>.
  Before \<^verbatim>\<open>scCommandStart\<close> has run for a command (the introspection server is started
  first), getting its snapshot throws a TypeError although its index is valid.
\<close>

theorem introspection_names_differ:
  "knListTypes \<noteq> [''command'']
   \<and> knGetObject ''cmd'' 0 (state_after [StartNext, SetupDone 0 None]) \<noteq>
       Inr (JObj [(''label'', JStr ''make RPC requests before ever connected''),
                  (''functionName'', JStr ''cmdRpcNeverConnected''),
                  (''iterationsStarted'', JNum 1),
                  (''lastStartedTimestamp'', JDate 0)])
   \<and> knListObjects ''cmd'' (init scCommands_registry) = Inr [0, 1, 2, 3, 4]
   \<and> knGetObject ''cmd'' 0 (init scCommands_registry) = Inl typeError"
  by (simp add: knListTypes_def knGetObject_def knListObjects_def Let_def running_example
        init_def scCommands_registry_def upt_rec)

text \<open>
  C10. For every error argument (\<open>None\<close> is the absent error, \<^verbatim>\<open>null\<close> or
  \<^verbatim>\<open>undefined\<close>) and every list of error-kind names, which are non-empty strings (each
  call site passes one non-empty literal), \<^verbatim>\<open>ignoreErrorTypes\<close> returns the absent
  error exactly when the argument is absent or its cause chain contains an error whose
  name is in the list, and returns the error unchanged otherwise; the function made by
  \<^verbatim>\<open>cbIgnoreErrorTypes\<close> calls the callback with the error filtered in this way,
  followed by the remaining arguments unchanged and in order.
\<close>

theorem ignoreErrorTypes_filters:
  assumes "[] \<notin> set errtypes"
  shows "ignoreErrorTypes err errtypes =
           Inr (case err of None \<Rightarrow> None
                | Some e \<Rightarrow> if hasCauseNamed e errtypes then None else Some e)
       \<and> cbIgnoreErrorTypes callback errtypes err args =
           Inr (callback (case err of None \<Rightarrow> None
                          | Some e \<Rightarrow> if hasCauseNamed e errtypes then None else Some e) args)"
  using assms
  by (cases err) (simp_all add: ignoreErrorTypes_def cbIgnoreErrorTypes_def ignoreErrorTypes_loop_eq)

theorem ignoreErrorTypes_filters_witness:
  "[] \<notin> set [''BucketNotFoundError'']
   \<and> ignoreErrorTypes
       (Some (VError_wrap (JSError ''BucketNotFoundError'' ''no such bucket'' None)
                ''request failed''))
       [''BucketNotFoundError''] = Inr None
   \<and> cbIgnoreErrorTypes subcallback [''BucketNotFoundError'']
       (Some (VError_wrap (JSError ''BucketNotFoundError'' ''no such bucket'' None)
                ''request failed''))
       [] = Inr (Callback None)"
  using ignoreErrorTypes_filters [of "[''BucketNotFoundError'']"
      "Some (VError_wrap (JSError ''BucketNotFoundError'' ''no such bucket'' None)
               ''request failed'')"
      subcallback "[]"]
  by (simp add: hasCauseNamed_def VError_wrap_def subcallback_def)

end
